theory Spec2Isabelle
  imports Complex_Main
begin

section \<open>Data model\<close>

text \<open>
  The pool of \<^verbatim>\<open>LockFreeMemoryPool.h\<close> is a \<^verbatim>\<open>std::vector<Segment>\<close> and an atomic
  index \<^verbatim>\<open>search_start\<close>. A segment is raw storage for one \<^verbatim>\<open>T\<close> and the atomic flag
  \<^verbatim>\<open>available\<close>. The storage is modelled by the object living in it, if any.

  The operations are modelled one call at a time: a call runs from its first to its last
  statement on the pool it is given. The indices are \<^verbatim>\<open>size_t\<close> values; they are natural
  numbers here, since \<^verbatim>\<open>start_idx + attempts\<close> stays below twice the size of the vector,
  which is far below \<^verbatim>\<open>SIZE_MAX\<close>.
\<close>

datatype error = ConstructorException | UndefinedBehaviour | AssertionAbort

text \<open>
  A \<^verbatim>\<open>T*\<close>: null, or the address \<open>d\<close> segments past \<^verbatim>\<open>&segments[0]\<close>. The storage is the
  first member of a segment, so the address of the object in slot \<open>i\<close> is the address of
  segment \<open>i\<close>.
\<close>

datatype pointer = nullptr | SlotAddr int

record 'v Segment =
  memory :: "'v option"
  available :: bool

record 'v LockFreeMemoryPool =
  segments :: "'v Segment list"
  search_start :: nat

text \<open>
  What one call of \<^verbatim>\<open>compare_exchange_weak(expected = true, false)\<close> can do: succeed,
  fail although the flag is still true (a spurious failure, \<^verbatim>\<open>expected\<close> stays true), or
  fail because the flag is false (\<^verbatim>\<open>expected\<close> becomes false).
\<close>

datatype cas_result = Claimed | Spurious | Occupied

text \<open>
  The effects of a call that the pool returned does not show: the compare-and-exchange
  calls made on a probed slot, in order, and the destructor calls.
\<close>

datatype event = Probe nat "cas_result list" | Destroy nat

record PoolStats =
  total_objects :: nat
  free_objects :: nat
  used_objects :: nat
  utilization_percent :: real

section \<open>Construction of a pool\<close>

definition Segment_default :: "'v Segment" where
  "Segment_default = \<lparr>memory = None, available = True\<rparr>"

definition LockFreeMemoryPool_new :: "nat \<Rightarrow> 'v LockFreeMemoryPool" where
  "LockFreeMemoryPool_new pool_size =
     \<lparr>segments = map (\<lambda>s. s\<lparr>available := True\<rparr>) (replicate pool_size Segment_default),
      search_start = 0\<rparr>"

section \<open>Allocation\<close>

definition max_spurious_retries :: nat where
  "max_spurious_retries = 3"

text \<open>
  The weak compare-and-exchange on a flag, given whether this call fails spuriously.
\<close>

definition compare_exchange_weak :: "bool \<Rightarrow> bool \<Rightarrow> cas_result" where
  "compare_exchange_weak flag spurious =
     (if flag then (if spurious then Spurious else Claimed) else Occupied)"

text \<open>
  The inner loop of \<^verbatim>\<open>allocate_fast\<close> on one slot, from the value \<open>retry\<close> of its counter:
  the results of the calls it makes. It ends with \<open>Claimed\<close> when the slot was claimed.
\<close>

function retry_loop :: "(nat \<Rightarrow> bool) \<Rightarrow> bool \<Rightarrow> nat \<Rightarrow> cas_result list" where
  "retry_loop spur flag retry =
     (if retry < max_spurious_retries then
        (case compare_exchange_weak flag (spur retry) of
           Claimed \<Rightarrow> [Claimed]
         | Occupied \<Rightarrow> [Occupied]
         | Spurious \<Rightarrow> Spurious # retry_loop spur flag (Suc retry))
      else [])"
  by pat_completeness auto
termination
  by (relation "measure (\<lambda>(spur, flag, retry). max_spurious_retries - retry)") auto

declare retry_loop.simps [simp del]

definition claimed :: "cas_result list \<Rightarrow> bool" where
  "claimed cas = (cas \<noteq> [] \<and> last cas = Claimed)"

definition size_t_mod :: "nat \<Rightarrow> nat \<Rightarrow> error + nat" where
  "size_t_mod a b = (if b = 0 then Inl UndefinedBehaviour else Inr (a mod b))"

definition segment_at :: "'v LockFreeMemoryPool \<Rightarrow> nat \<Rightarrow> error + 'v Segment" where
  "segment_at pool idx =
     (if idx < length (segments pool) then Inr (segments pool ! idx)
      else Inl UndefinedBehaviour)"

definition store_available :: "'v LockFreeMemoryPool \<Rightarrow> nat \<Rightarrow> bool \<Rightarrow> 'v LockFreeMemoryPool" where
  "store_available pool idx b =
     pool\<lparr>segments := (segments pool)[idx := (segments pool ! idx)\<lparr>available := b\<rparr>]\<rparr>"

definition set_memory :: "'v LockFreeMemoryPool \<Rightarrow> nat \<Rightarrow> 'v option \<Rightarrow> 'v LockFreeMemoryPool" where
  "set_memory pool idx m =
     pool\<lparr>segments := (segments pool)[idx := (segments pool ! idx)\<lparr>memory := m\<rparr>]\<rparr>"

text \<open>
  The body run once a slot is claimed: the compare-and-exchange has stored false in the
  flag; the constructor runs on the storage; if it throws, the flag is stored true again
  and the exception leaves the call with the hint untouched; otherwise the hint is stored
  and the pointer returned. \<open>T args\<close> is the object the constructor builds from \<open>args\<close>,
  or \<open>None\<close> when it throws.
\<close>

definition claimed_body ::
  "('a \<Rightarrow> 'v option) \<Rightarrow> 'a \<Rightarrow> 'v LockFreeMemoryPool \<Rightarrow> nat
     \<Rightarrow> (error + pointer) \<times> 'v LockFreeMemoryPool" where
  "claimed_body T args pool idx =
     (let pool1 = store_available pool idx False in
      case T args of
        None \<Rightarrow>
          (Inl ConstructorException, store_available (set_memory pool1 idx None) idx True)
      | Some v \<Rightarrow>
          (Inr (SlotAddr (int idx)),
           (set_memory pool1 idx (Some v))
             \<lparr>search_start := (idx + 1) mod length (segments pool)\<rparr>))"

text \<open>
  The outer loop of \<^verbatim>\<open>allocate_fast\<close>, from the value \<open>attempts\<close> of its counter. \<open>sp k r\<close>
  says whether the compare-and-exchange number \<open>r\<close> on the slot probed at \<open>attempts = k\<close>
  fails spuriously.
\<close>

function probe_loop ::
  "('a \<Rightarrow> 'v option) \<Rightarrow> 'a \<Rightarrow> (nat \<Rightarrow> nat \<Rightarrow> bool) \<Rightarrow> 'v LockFreeMemoryPool \<Rightarrow> nat \<Rightarrow> nat
     \<Rightarrow> (error + pointer) \<times> 'v LockFreeMemoryPool \<times> event list" where
  "probe_loop T args sp pool start_idx attempts =
     (let pool_size = length (segments pool) in
      if attempts < pool_size then
        (case size_t_mod (start_idx + attempts) pool_size of
           Inl e \<Rightarrow> (Inl e, pool, [])
         | Inr idx \<Rightarrow>
            (case segment_at pool idx of
               Inl e \<Rightarrow> (Inl e, pool, [])
             | Inr seg \<Rightarrow>
                (let cas = retry_loop (sp attempts) (available seg) 0 in
                 if claimed cas then
                   (case claimed_body T args pool idx of
                      (r, pool') \<Rightarrow> (r, pool', [Probe idx cas]))
                 else
                   (case probe_loop T args sp pool start_idx (Suc attempts) of
                      (r, pool', tr) \<Rightarrow> (r, pool', Probe idx cas # tr)))))
      else (Inr nullptr, pool, []))"
  by pat_completeness auto
termination
  by (relation "measure (\<lambda>(T, args, sp, pool, start_idx, attempts).
                  length (segments pool) - attempts)") auto

declare probe_loop.simps [simp del]

definition allocate_fast ::
  "('a \<Rightarrow> 'v option) \<Rightarrow> 'a \<Rightarrow> (nat \<Rightarrow> nat \<Rightarrow> bool) \<Rightarrow> 'v LockFreeMemoryPool
     \<Rightarrow> (error + pointer) \<times> 'v LockFreeMemoryPool \<times> event list" where
  "allocate_fast T args sp pool = probe_loop T args sp pool (search_start pool) 0"

text \<open>
  \<^verbatim>\<open>allocate_safe\<close>: the handle is the pointer it owns, the empty handle is \<open>nullptr\<close>.
  The \<^verbatim>\<open>catch (...)\<close> catches the constructor's exception only.
\<close>

definition allocate_safe ::
  "('a \<Rightarrow> 'v option) \<Rightarrow> 'a \<Rightarrow> (nat \<Rightarrow> nat \<Rightarrow> bool) \<Rightarrow> 'v LockFreeMemoryPool
     \<Rightarrow> (error + pointer) \<times> 'v LockFreeMemoryPool \<times> event list" where
  "allocate_safe T args sp pool =
     (case allocate_fast T args sp pool of
        (Inl ConstructorException, pool', tr) \<Rightarrow> (Inr nullptr, pool', tr)
      | (Inl e, pool', tr) \<Rightarrow> (Inl e, pool', tr)
      | (Inr ptr, pool', tr) \<Rightarrow> (Inr ptr, pool', tr))"

section \<open>Release\<close>

text \<open>
  \<^verbatim>\<open>deallocate_impl_safe\<close>: the index is the pointer difference converted to \<^verbatim>\<open>size_t\<close>;
  a negative difference converts to a value of at least \<open>2^63\<close>, beyond the size of any
  vector. \<^verbatim>\<open>segments[idx]\<close> is unchecked: outside the vector the store is undefined
  behaviour. The only value returned is \<^verbatim>\<open>true\<close>.
\<close>

definition deallocate_impl_safe ::
  "'v LockFreeMemoryPool \<Rightarrow> pointer \<Rightarrow> (error + bool) \<times> 'v LockFreeMemoryPool" where
  "deallocate_impl_safe pool elem =
     (case elem of
        nullptr \<Rightarrow> (Inl UndefinedBehaviour, pool)
      | SlotAddr d \<Rightarrow>
          if 0 \<le> d \<and> nat d < length (segments pool)
          then (Inr True, store_available pool (nat d) True)
          else (Inl UndefinedBehaviour, pool))"

text \<open>
  \<^verbatim>\<open>SAFE_CALL(expr, message)\<close>, given the value of \<open>expr\<close>: without \<^verbatim>\<open>NDEBUG\<close> it aborts when
  the value is false; with \<^verbatim>\<open>NDEBUG\<close> it drops the value.
\<close>

definition SAFE_CALL :: "bool \<Rightarrow> bool \<Rightarrow> error + unit" where
  "SAFE_CALL ndebug expr =
     (if ndebug then Inr () else if \<not> expr then Inl AssertionAbort else Inr ())"

text \<open>\<^verbatim>\<open>ptr->~T()\<close>: ends the object in the slot the pointer names.\<close>

definition destroy ::
  "'v LockFreeMemoryPool \<Rightarrow> pointer \<Rightarrow> (error + unit) \<times> 'v LockFreeMemoryPool \<times> event list" where
  "destroy pool elem =
     (case elem of
        nullptr \<Rightarrow> (Inl UndefinedBehaviour, pool, [])
      | SlotAddr d \<Rightarrow>
          if 0 \<le> d \<and> nat d < length (segments pool)
          then (Inr (), set_memory pool (nat d) None, [Destroy (nat d)])
          else (Inl UndefinedBehaviour, pool, []))"

definition destroy_and_release ::
  "bool \<Rightarrow> 'v LockFreeMemoryPool \<Rightarrow> pointer
     \<Rightarrow> (error + unit) \<times> 'v LockFreeMemoryPool \<times> event list" where
  "destroy_and_release ndebug pool elem =
     (case destroy pool elem of
        (Inl e, pool1, tr) \<Rightarrow> (Inl e, pool1, tr)
      | (Inr u, pool1, tr) \<Rightarrow>
          (case deallocate_impl_safe pool1 elem of
             (Inl e, pool2) \<Rightarrow> (Inl e, pool2, tr)
           | (Inr ok, pool2) \<Rightarrow> (SAFE_CALL ndebug ok, pool2, tr)))"

definition deallocate_fast ::
  "bool \<Rightarrow> 'v LockFreeMemoryPool \<Rightarrow> pointer
     \<Rightarrow> (error + unit) \<times> 'v LockFreeMemoryPool \<times> event list" where
  "deallocate_fast ndebug pool elem =
     (if elem = nullptr then (Inr (), pool, [])
      else destroy_and_release ndebug pool elem)"

text \<open>
  \<^verbatim>\<open>PoolDeleter::operator()\<close>: the deleter's \<^verbatim>\<open>pool\<close> member is \<open>None\<close> when it is null.
\<close>

definition PoolDeleter ::
  "bool \<Rightarrow> 'v LockFreeMemoryPool option \<Rightarrow> pointer
     \<Rightarrow> (error + unit) \<times> 'v LockFreeMemoryPool option \<times> event list" where
  "PoolDeleter ndebug pool ptr =
     (case pool of
        None \<Rightarrow> (Inr (), None, [])
      | Some p \<Rightarrow>
          if ptr = nullptr then (Inr (), Some p, [])
          else (case destroy_and_release ndebug p ptr of
                  (r, p', tr) \<Rightarrow> (r, Some p', tr)))"

section \<open>Statistics\<close>

text \<open>
  The percentage is computed in \<^verbatim>\<open>double\<close>. A non-negative double is a pair \<open>(m, e)\<close> of
  value \<open>m * 2 ^ e\<close>. Each operation of the source (the conversion of a \<^verbatim>\<open>size_t\<close>, the
  division, the multiplication) returns its exact result rounded to 53 significant bits,
  to nearest and to even on a tie, as IEEE 754 binary64 does by default. The operands of
  the snapshot are counts below \<open>2 ^ 64\<close> and the constant 100, so that no result
  leaves the range of the normal numbers; the division is reached with a divisor that is
  not zero only.
\<close>

text \<open>The number of binary digits of \<open>n\<close>.\<close>

fun bit_length :: "nat \<Rightarrow> nat" where
  "bit_length n = (if n = 0 then 0 else Suc (bit_length (n div 2)))"

declare bit_length.simps [simp del]

text \<open>The quotient \<open>n / d\<close> rounded to an integer, to nearest and to even on a tie.\<close>

definition round_half_even :: "nat \<Rightarrow> nat \<Rightarrow> nat" where
  "round_half_even n d =
     (let f = n div d; r = n mod d
      in if 2 * r < d then f else if d < 2 * r then f + 1 else if even f then f else f + 1)"

text \<open>The exponent \<open>e\<close> with \<open>2 ^ e \<le> n / d < 2 ^ (e + 1)\<close>, for positive \<open>n\<close> and \<open>d\<close>.\<close>

definition binade :: "nat \<Rightarrow> nat \<Rightarrow> int" where
  "binade n d =
     (let s = int (bit_length n) - int (bit_length d)
      in if (if 0 \<le> s then d * 2 ^ nat s \<le> n else d \<le> n * 2 ^ nat (- s)) then s else s - 1)"

type_synonym double = "nat \<times> int"

text \<open>The double nearest to \<open>n / d\<close>: a mantissa of 53 bits and its exponent.\<close>

definition round_to_double :: "nat \<Rightarrow> nat \<Rightarrow> double" where
  "round_to_double n d =
     (if n = 0 then (0, 0)
      else let k = 52 - binade n d
           in (if 0 \<le> k then round_half_even (n * 2 ^ nat k) d
               else round_half_even n (d * 2 ^ nat (- k)), - k))"

definition double_value :: "double \<Rightarrow> real" where
  "double_value x =
     (case x of (m, e) \<Rightarrow> if 0 \<le> e then real m * 2 ^ nat e else real m / 2 ^ nat (- e))"

definition double_of_size_t :: "nat \<Rightarrow> double" where
  "double_of_size_t n = round_to_double n 1"

definition double_div :: "double \<Rightarrow> double \<Rightarrow> double" where
  "double_div a b =
     (case round_to_double (fst a) (fst b) of (m, e) \<Rightarrow> (m, e + snd a - snd b))"

definition double_mul :: "double \<Rightarrow> double \<Rightarrow> double" where
  "double_mul a b =
     (case round_to_double (fst a * fst b) 1 of (m, e) \<Rightarrow> (m, e + snd a + snd b))"

text \<open>
  \<^verbatim>\<open>get_pool_stats_impl\<close>. The field \<open>utilization_percent\<close> holds the value of the double
  \<^verbatim>\<open>static_cast<double>(used) / total * 100.0\<close>; \<^verbatim>\<open>total\<close> is converted to double by the
  division.
\<close>

definition get_pool_stats_impl :: "'v LockFreeMemoryPool \<Rightarrow> PoolStats" where
  "get_pool_stats_impl pool =
     (let free_count = fold (\<lambda>segment c. if available segment then c + 1 else c)
                            (segments pool) 0;
          total_n = length (segments pool);
          used = total_n - free_count
      in \<lparr>total_objects = total_n, free_objects = free_count, used_objects = used,
          utilization_percent =
            (if total_n > 0
             then double_value
                    (double_mul (double_div (double_of_size_t used) (double_of_size_t total_n))
                                (double_of_size_t 100))
             else 0)\<rparr>)"

section \<open>Histories of calls\<close>

text \<open>
  A caller's calls on one pool, one after the other. An allocation carries the
  constructor arguments and the spurious failures its compare-and-exchange calls meet; a
  release carries the pointer given to \<^verbatim>\<open>deallocate_fast\<close>, or owned by the handle that is
  dropped. A history ends at undefined behaviour and at an abort; an exception of the
  constructor is caught by the caller, who goes on.
\<close>

datatype 'a op =
    Alloc 'a "nat \<Rightarrow> nat \<Rightarrow> bool"
  | AllocSafe 'a "nat \<Rightarrow> nat \<Rightarrow> bool"
  | Dealloc pointer
  | DropHandle pointer

datatype op_result = Allocated pointer | Released | Failed error

definition alloc_result :: "error + pointer \<Rightarrow> op_result" where
  "alloc_result r = (case r of Inl e \<Rightarrow> Failed e | Inr ptr \<Rightarrow> Allocated ptr)"

definition release_result :: "error + unit \<Rightarrow> op_result" where
  "release_result r = (case r of Inl e \<Rightarrow> Failed e | Inr u \<Rightarrow> Released)"

fun step ::
  "('a \<Rightarrow> 'v option) \<Rightarrow> bool \<Rightarrow> 'a op \<Rightarrow> 'v LockFreeMemoryPool
     \<Rightarrow> op_result \<times> 'v LockFreeMemoryPool" where
  "step T ndebug (Alloc args sp) pool =
     (case allocate_fast T args sp pool of (r, pool', tr) \<Rightarrow> (alloc_result r, pool'))"
| "step T ndebug (AllocSafe args sp) pool =
     (case allocate_safe T args sp pool of (r, pool', tr) \<Rightarrow> (alloc_result r, pool'))"
| "step T ndebug (Dealloc ptr) pool =
     (case deallocate_fast ndebug pool ptr of (r, pool', tr) \<Rightarrow> (release_result r, pool'))"
| "step T ndebug (DropHandle ptr) pool =
     (case PoolDeleter ndebug (Some pool) ptr of
        (r, po, tr) \<Rightarrow> (release_result r, (case po of None \<Rightarrow> pool | Some pool' \<Rightarrow> pool')))"

definition fatal :: "op_result \<Rightarrow> bool" where
  "fatal r = (r = Failed UndefinedBehaviour \<or> r = Failed AssertionAbort)"

fun run ::
  "('a \<Rightarrow> 'v option) \<Rightarrow> bool \<Rightarrow> 'a op list \<Rightarrow> 'v LockFreeMemoryPool
     \<Rightarrow> op_result list \<times> 'v LockFreeMemoryPool" where
  "run T ndebug [] pool = ([], pool)"
| "run T ndebug (x # xs) pool =
     (case step T ndebug x pool of
        (r, pool') \<Rightarrow>
          if fatal r then ([r], pool')
          else (case run T ndebug xs pool' of (rs, pool'') \<Rightarrow> (r # rs, pool'')))"

section \<open>Notions used in the statements\<close>

text \<open>The slots a trace probes, in order.\<close>

fun probed_slots :: "event list \<Rightarrow> nat list" where
  "probed_slots [] = []"
| "probed_slots (Probe idx cas # tr) = idx # probed_slots tr"
| "probed_slots (Destroy idx # tr) = probed_slots tr"

text \<open>
  Probe number \<open>k\<close> of a claim wins its slot: the slot is free and one of the
  compare-and-exchange calls allowed on it does not fail spuriously.
\<close>

definition claim_succeeds :: "(nat \<Rightarrow> nat \<Rightarrow> bool) \<Rightarrow> 'v LockFreeMemoryPool \<Rightarrow> nat \<Rightarrow> bool" where
  "claim_succeeds sp pool k =
     (available (segments pool ! ((search_start pool + k) mod length (segments pool))) \<and>
      (\<exists>r \<in> {0..<max_spurious_retries}. \<not> sp k r))"

text \<open>No probe of a claim over \<open>n\<close> slots fails spuriously on all its calls.\<close>

definition no_starvation :: "(nat \<Rightarrow> nat \<Rightarrow> bool) \<Rightarrow> nat \<Rightarrow> bool" where
  "no_starvation sp n = (\<forall>k \<in> {0..<n}. \<exists>r \<in> {0..<max_spurious_retries}. \<not> sp k r)"




text \<open>A release of the pointer to slot \<open>i\<close>, by either form.\<close>

definition releases :: "nat \<Rightarrow> 'a op \<Rightarrow> bool" where
  "releases i x = (x = Dealloc (SlotAddr (int i)) \<or> x = DropHandle (SlotAddr (int i)))"




text \<open>The percentage the snapshot computes for \<open>u\<close> used slots of \<open>t\<close>.\<close>

definition utilization :: "nat \<Rightarrow> nat \<Rightarrow> real" where
  "utilization u t =
     double_value (double_mul (double_div (double_of_size_t u) (double_of_size_t t))
                              (double_of_size_t 100))"

section \<open>Example inputs\<close>

text \<open>
  The type of the test \<^verbatim>\<open>ConstructorExceptionHandling\<close>, whose constructor throws when
  its argument is true.
\<close>

definition ThrowingType :: "bool \<Rightarrow> unit option" where
  "ThrowingType should_throw = (if should_throw then None else Some ())"

definition never_spurious :: "nat \<Rightarrow> nat \<Rightarrow> bool" where
  "never_spurious k r = False"

definition always_spurious :: "nat \<Rightarrow> nat \<Rightarrow> bool" where
  "always_spurious k r = True"

definition spurious_on_first_probe :: "nat \<Rightarrow> nat \<Rightarrow> bool" where
  "spurious_on_first_probe k r = (k = 0)"

text \<open>A pool of three slots, the first one occupied, with the hint on the last.\<close>

definition demo_pool :: "int LockFreeMemoryPool" where
  "demo_pool = \<lparr>segments = [\<lparr>memory = Some 7, available = False\<rparr>,
                            \<lparr>memory = None, available = True\<rparr>,
                            \<lparr>memory = None, available = True\<rparr>],
                search_start = 2\<rparr>"

text \<open>
  The pool of the test \<^verbatim>\<open>ConstructorExceptionHandling\<close> after its first allocation, with
  two slots: the first one occupied, the hint on the second.
\<close>

definition test_pool :: "unit LockFreeMemoryPool" where
  "test_pool = \<lparr>segments = [\<lparr>memory = Some (), available = False\<rparr>,
                            \<lparr>memory = None, available = True\<rparr>],
                search_start = 1\<rparr>"


text \<open>
  Two allocations, the release of the first pointer, and one more allocation.
\<close>

definition reuse_history :: "bool op list" where
  "reuse_history = [Alloc False never_spurious, AllocSafe False never_spurious,
                    Dealloc (SlotAddr 0), Alloc False never_spurious]"

text \<open>
  A pool of 100 slots after seven allocations, and the pool of ten slots of the test
  \<^verbatim>\<open>PoolStatistics\<close> after its five allocations.
\<close>

definition seven_of_hundred :: "unit LockFreeMemoryPool" where
  "seven_of_hundred =
     \<lparr>segments = replicate 7 \<lparr>memory = Some (), available = False\<rparr> @
                 replicate 93 \<lparr>memory = None, available = True\<rparr>,
      search_start = 7\<rparr>"

definition five_of_ten :: "int LockFreeMemoryPool" where
  "five_of_ten =
     \<lparr>segments = map (\<lambda>i. \<lparr>memory = Some i, available = False\<rparr>) [0, 1, 2, 3, 4] @
                 replicate 5 \<lparr>memory = None, available = True\<rparr>,
      search_start = 5\<rparr>"

section \<open>The notions, unfolded\<close>

lemma claim_succeeds_iff:
  "claim_succeeds sp pool k =
     (available (segments pool ! ((search_start pool + k) mod length (segments pool))) \<and>
      (\<exists>r < max_spurious_retries. \<not> sp k r))"
  by (simp add: claim_succeeds_def Bex_def)

lemma no_starvation_iff:
  "no_starvation sp n = (\<forall>k < n. \<exists>r < max_spurious_retries. \<not> sp k r)"
  by (simp add: no_starvation_def Ball_def Bex_def)


section \<open>The retry loop and the probe loop\<close>

lemma retry_loop_unfold:
  "retry_loop spur flag 0 =
     (if \<not> flag then [Occupied]
      else if \<not> spur 0 then [Claimed]
      else if \<not> spur 1 then [Spurious, Claimed]
      else if \<not> spur 2 then [Spurious, Spurious, Claimed]
      else [Spurious, Spurious, Spurious])"
  by (simp add: retry_loop.simps [of _ _ 0] retry_loop.simps [of _ _ "Suc 0"]
      retry_loop.simps [of _ _ "Suc (Suc 0)"] retry_loop.simps [of _ _ "Suc (Suc (Suc 0))"]
      compare_exchange_weak_def max_spurious_retries_def numeral_2_eq_2)

lemma claimed_retry_loop:
  "claimed (retry_loop spur flag 0) = (flag \<and> (\<not> spur 0 \<or> \<not> spur 1 \<or> \<not> spur 2))"
  by (simp add: retry_loop_unfold claimed_def)

lemma ex_lt_retries: "(\<exists>r < max_spurious_retries. P r) = (P 0 \<or> P 1 \<or> P 2)"
proof -
  have "{..<max_spurious_retries} = {0, 1, 2}"
    by (auto simp: max_spurious_retries_def)
  then have "(\<exists>r \<in> {..<max_spurious_retries}. P r) = (P 0 \<or> P 1 \<or> P 2)" by simp
  then show ?thesis by (simp add: Bex_def)
qed

lemma retries_positive [simp]: "\<exists>r. r < max_spurious_retries"
  by (rule exI [of _ 0]) (simp add: max_spurious_retries_def)

lemma upt_3: "[0..<3] = [0, 1, 2]"
  by (simp add: upt_rec)

lemma claimed_iff_claim_succeeds:
  "claimed (retry_loop (sp k)
      (available (segments pool ! ((search_start pool + k) mod length (segments pool)))) 0)
     = claim_succeeds sp pool k"
  by (simp add: claimed_retry_loop claim_succeeds_iff ex_lt_retries)

lemma find_upt_Some:
  "(find P [0..<n] = Some k) = (k < n \<and> P k \<and> (\<forall>j<k. \<not> P j))"
  by (auto simp: find_Some_iff)

lemma find_upt_None: "(find P [0..<n] = None) = (\<forall>k<n. \<not> P k)"
  by (auto simp: find_None_iff)

lemma probed_slots_append [simp]:
  "probed_slots (xs @ ys) = probed_slots xs @ probed_slots ys"
  by (induction xs rule: probed_slots.induct) simp_all

lemma probed_slots_map [simp]: "probed_slots (map (\<lambda>k. Probe (f k) (g k)) ks) = map f ks"
  by (induction ks) simp_all

lemma Segment_overwrite [simp]:
  "(s :: 'v Segment)\<lparr>available := a, memory := m\<rparr> = \<lparr>memory = m, available = a\<rparr>"
  "(s :: 'v Segment)\<lparr>memory := m, available := a\<rparr> = \<lparr>memory = m, available = a\<rparr>"
  by (cases s, simp)+

lemma claimed_body_Some:
  "idx < length (segments pool) \<Longrightarrow> T args = Some v \<Longrightarrow>
   claimed_body T args pool idx =
     (Inr (SlotAddr (int idx)),
      pool\<lparr>segments := (segments pool)[idx := \<lparr>memory = Some v, available = False\<rparr>],
           search_start := (idx + 1) mod length (segments pool)\<rparr>)"
  by (simp add: claimed_body_def store_available_def set_memory_def)

lemma claimed_body_None:
  "idx < length (segments pool) \<Longrightarrow> T args = None \<Longrightarrow>
   claimed_body T args pool idx =
     (Inl ConstructorException,
      pool\<lparr>segments := (segments pool)[idx := \<lparr>memory = None, available = True\<rparr>]\<rparr>)"
  by (simp add: claimed_body_def store_available_def set_memory_def)

text \<open>
  The probe loop from \<open>attempts = a\<close>: it stops at the first probe that claims its slot
  and runs the body there; with no such probe it returns null and leaves the pool as it
  was.
\<close>

lemma probe_loop_char:
  fixes pool :: "'v LockFreeMemoryPool" and T :: "'a \<Rightarrow> 'v option"
  defines "N \<equiv> length (segments pool)"
  assumes "a \<le> N"
  shows "probe_loop T args sp pool start a =
     (case find (\<lambda>k. claimed (retry_loop (sp k) (available (segments pool ! ((start + k) mod N))) 0)) [a..<N] of
        None \<Rightarrow> (Inr nullptr, pool,
                  map (\<lambda>k. Probe ((start + k) mod N) (retry_loop (sp k) (available (segments pool ! ((start + k) mod N))) 0)) [a..<N])
      | Some k \<Rightarrow> (fst (claimed_body T args pool ((start + k) mod N)),
                   snd (claimed_body T args pool ((start + k) mod N)),
                   map (\<lambda>k. Probe ((start + k) mod N) (retry_loop (sp k) (available (segments pool ! ((start + k) mod N))) 0)) [a..<Suc k]))"
  using assms(2)
proof (induction "N - a" arbitrary: a)
  case 0
  then have "a = N" by simp
  then show ?case
    unfolding N_def by (subst probe_loop.simps) simp
next
  case (Suc n)
  then have lt: "a < N" and le: "Suc a \<le> N" and n: "n = N - Suc a" by simp_all
  have N0: "N \<noteq> 0" using lt by simp
  have idx: "(start + a) mod N < N" using N0 by simp
  note IH = Suc.hyps(1) [OF n le]
  have upt: "[a..<N] = a # [Suc a..<N]" using lt by (simp add: upt_conv_Cons)
  show ?case
  proof (cases "claimed (retry_loop (sp a) (available (segments pool ! ((start + a) mod N))) 0)")
    case True
    then show ?thesis
      using lt N0 idx
      by (simp add: probe_loop.simps [of T args sp pool start a] N_def [symmetric]
          size_t_mod_def segment_at_def upt split: prod.splits)
  next
    case False
    show ?thesis
    proof (cases "find (\<lambda>k. claimed (retry_loop (sp k) (available (segments pool ! ((start + k) mod N))) 0)) [Suc a..<N]")
      case None
      then show ?thesis
        using False lt N0 idx IH
        by (simp add: probe_loop.simps [of T args sp pool start a] N_def [symmetric]
            size_t_mod_def segment_at_def upt)
    next
      case (Some k)
      then have "k \<in> set [Suc a..<N]"
        by (auto simp: find_Some_iff)
      then have "a < Suc k" by simp
      then have "[a..<Suc k] = a # [Suc a..<Suc k]" by (simp add: upt_conv_Cons)
      then show ?thesis
        using Some False lt N0 idx IH
        by (simp add: probe_loop.simps [of T args sp pool start a] N_def [symmetric]
            size_t_mod_def segment_at_def upt)
    qed
  qed
qed

lemma allocate_fast_char:
  "allocate_fast T args sp pool =
     (case find (claim_succeeds sp pool) [0..<length (segments pool)] of
        None \<Rightarrow> (Inr nullptr, pool,
                  map (\<lambda>k. Probe ((search_start pool + k) mod length (segments pool))
                         (retry_loop (sp k) (available (segments pool !
                            ((search_start pool + k) mod length (segments pool)))) 0))
                      [0..<length (segments pool)])
      | Some k \<Rightarrow>
          (fst (claimed_body T args pool ((search_start pool + k) mod length (segments pool))),
           snd (claimed_body T args pool ((search_start pool + k) mod length (segments pool))),
           map (\<lambda>k. Probe ((search_start pool + k) mod length (segments pool))
                  (retry_loop (sp k) (available (segments pool !
                     ((search_start pool + k) mod length (segments pool)))) 0))
               [0..<Suc k]))"
  unfolding allocate_fast_def
  by (subst probe_loop_char) (simp_all add: claimed_iff_claim_succeeds cong: option.case_cong)

lemma allocate_fast_exhausted:
  assumes "\<forall>k < length (segments pool). \<not> claim_succeeds sp pool k"
  shows "\<exists>tr. allocate_fast T args sp pool = (Inr nullptr, pool, tr) \<and>
           probed_slots tr = map (\<lambda>k. (search_start pool + k) mod length (segments pool))
                               [0..<length (segments pool)]"
proof -
  have "find (claim_succeeds sp pool) [0..<length (segments pool)] = None"
    using assms by (simp add: find_upt_None)
  then show ?thesis by (simp add: allocate_fast_char)
qed

lemma allocate_fast_claims:
  assumes "k < length (segments pool)" "claim_succeeds sp pool k"
      "\<forall>j<k. \<not> claim_succeeds sp pool j"
  defines "i \<equiv> (search_start pool + k) mod length (segments pool)"
  shows "\<exists>tr. allocate_fast T args sp pool =
           (case T args of
              Some v \<Rightarrow> (Inr (SlotAddr (int i)),
                  pool\<lparr>segments := (segments pool)[i := \<lparr>memory = Some v, available = False\<rparr>],
                       search_start := (i + 1) mod length (segments pool)\<rparr>, tr)
            | None \<Rightarrow> (Inl ConstructorException,
                  pool\<lparr>segments := (segments pool)[i := \<lparr>memory = None, available = True\<rparr>]\<rparr>, tr))
          \<and> probed_slots tr = map (\<lambda>k. (search_start pool + k) mod length (segments pool))
                                 [0..<Suc k]"
proof -
  have f: "find (claim_succeeds sp pool) [0..<length (segments pool)] = Some k"
    using assms(1-3) by (simp add: find_upt_Some)
  have "0 < length (segments pool)" using assms(1) by (cases "segments pool") simp_all
  then have i: "i < length (segments pool)" by (simp add: i_def)
  show ?thesis
  proof (cases "T args")
    case None
    then show ?thesis using f i
      by (simp add: allocate_fast_char claimed_body_None i_def [symmetric])
  next
    case (Some v)
    then show ?thesis using f i
      by (simp add: allocate_fast_char claimed_body_Some i_def [symmetric])
  qed
qed

section \<open>Rounding to double\<close>

lemma bit_length_bounds:
  "0 < n \<Longrightarrow> 2 ^ (bit_length n - 1) \<le> n \<and> n < 2 ^ bit_length n"
proof (induction n rule: bit_length.induct)
  case (1 n)
  show ?case
  proof (cases "n div 2 = 0")
    case True
    then have "n = 1" using 1(2) by presburger
    then show ?thesis by (simp add: bit_length.simps)
  next
    case False
    then have h: "0 < n div 2" by simp
    from 1(1) [OF _ h] 1(2)
    have a: "2 ^ (bit_length (n div 2) - 1) \<le> n div 2" and b: "n div 2 < 2 ^ bit_length (n div 2)"
      by simp_all
    have pos: "0 < bit_length (n div 2)"
      using h by (subst bit_length.simps) simp
    have bl: "bit_length n = Suc (bit_length (n div 2))"
      using 1(2) by (subst bit_length.simps) simp
    have "2 * 2 ^ (bit_length (n div 2) - 1) \<le> 2 * (n div 2)" using a by simp
    also have "\<dots> \<le> n" by simp
    finally have lo: "2 ^ bit_length (n div 2) \<le> n"
      using pos by (cases "bit_length (n div 2)") simp_all
    have "n < 2 * (n div 2) + 2" by presburger
    also have "\<dots> \<le> 2 * 2 ^ bit_length (n div 2)" using b by simp
    finally have hi: "n < 2 ^ Suc (bit_length (n div 2))" by simp
    show ?thesis using lo hi by (simp add: bl)
  qed
qed

lemma round_half_even_error:
  assumes "0 < d"
  shows "\<bar>real (round_half_even n d) - real n / real d\<bar> \<le> 1 / 2"
proof -
  let ?f = "n div d" and ?r = "n mod d"
  have n: "real n = real ?f * real d + real ?r"
    by (metis div_mult_mod_eq of_nat_add of_nat_mult)
  have "(real ?f * real d + real ?r) / real d = real ?f + real ?r / real d"
    using assms by (simp add: add_divide_distrib)
  then have q: "real n / real d = real ?f + real ?r / real d"
    by (subst n) simp
  have r: "real ?r < real d" using assms by simp
  consider "2 * ?r < d" | "d < 2 * ?r" | "2 * ?r = d" by linarith
  then show ?thesis
  proof cases
    case 1
    then have "real ?r / real d \<le> 1 / 2" using assms by (simp add: field_simps)
    moreover have "0 \<le> real ?r / real d" by simp
    ultimately show ?thesis using 1 by (simp add: round_half_even_def Let_def q)
  next
    case 2
    then have "1 / 2 \<le> real ?r / real d" using assms by (simp add: field_simps)
    moreover have "real ?r / real d \<le> 1" using r assms by (simp add: field_simps)
    ultimately show ?thesis using 2 by (simp add: round_half_even_def Let_def q)
  next
    case 3
    then have "real ?r / real d = 1 / 2" using assms by (simp add: field_simps)
    then show ?thesis using 3 by (simp add: round_half_even_def Let_def q)
  qed
qed

lemma two_powr_nat: "0 \<le> e \<Longrightarrow> 2 powr (real_of_int e) = (2::real) ^ nat e"
proof -
  assume e: "0 \<le> e"
  have "(2::real) powr real (nat e) = 2 ^ nat e" by (rule powr_realpow) simp
  moreover have "real (nat e) = real_of_int e" using e by (rule of_nat_nat)
  ultimately show ?thesis by (simp only:)
qed

lemma double_value_powr: "double_value (m, e) = real m * 2 powr (real_of_int e)"
proof (cases "0 \<le> e")
  case True
  then show ?thesis by (simp add: double_value_def two_powr_nat)
next
  case False
  then have a: "2 powr (real_of_int (- e)) = (2::real) ^ nat (- e)"
    by (intro two_powr_nat) simp
  have b: "(2::real) powr (- real_of_int e) = 1 / 2 powr real_of_int e"
    by (rule powr_minus_divide)
  have "2 powr real_of_int e = 1 / (1 / 2 powr real_of_int e)" by simp
  also have "\<dots> = 1 / (2::real) ^ nat (- e)"
    unfolding b [symmetric] using a by simp
  finally have "2 powr (real_of_int e) = 1 / (2::real) ^ nat (- e)" .
  then show ?thesis using False by (simp add: double_value_def)
qed

lemma two_powr_neg: "e < 0 \<Longrightarrow> 2 powr (real_of_int e) = 1 / (2::real) ^ nat (- e)"
proof -
  assume "e < 0"
  then have a: "2 powr (real_of_int (- e)) = (2::real) ^ nat (- e)"
    by (intro two_powr_nat) simp
  have b: "(2::real) powr (- real_of_int e) = 1 / 2 powr real_of_int e"
    by (rule powr_minus_divide)
  have "2 powr real_of_int e = 1 / (1 / 2 powr real_of_int e)" by simp
  also have "\<dots> = 1 / (2::real) ^ nat (- e)"
    unfolding b [symmetric] using a by simp
  finally show ?thesis .
qed

lemma bit_length_powr:
  assumes "0 < n"
  shows "2 powr (real (bit_length n) - 1) \<le> real n" and "real n < 2 powr real (bit_length n)"
proof -
  from bit_length_bounds [OF assms]
  have lo: "2 ^ (bit_length n - 1) \<le> n" and hi: "n < 2 ^ bit_length n" by simp_all
  have pos: "0 < bit_length n" using assms by (subst bit_length.simps) simp
  have "real n < real (2 ^ bit_length n)" using hi by (simp only: of_nat_less_iff)
  also have "\<dots> = 2 ^ bit_length n" by simp
  also have "\<dots> = 2 powr real (bit_length n)" by (rule powr_realpow [symmetric]) simp
  finally show "real n < 2 powr real (bit_length n)" .
  have "real (bit_length n) - 1 = real (bit_length n - 1)" using pos by simp
  then have "2 powr (real (bit_length n) - 1) = 2 powr real (bit_length n - 1)" by (simp only:)
  also have "\<dots> = 2 ^ (bit_length n - 1)" by (rule powr_realpow) simp
  also have "\<dots> = real (2 ^ (bit_length n - 1))" by simp
  also have "\<dots> \<le> real n" using lo by (simp only: of_nat_le_iff)
  finally show "2 powr (real (bit_length n) - 1) \<le> real n" .
qed

lemma binade_test:
  assumes "0 < d"
  shows "(if 0 \<le> s then d * 2 ^ nat s \<le> n else d \<le> n * 2 ^ nat (- s))
           = (2 powr (real_of_int s) * real d \<le> real n)"
proof (cases "0 \<le> s")
  case True
  have "(d * 2 ^ nat s \<le> n) = (real (d * 2 ^ nat s) \<le> real n)" by (simp only: of_nat_le_iff)
  also have "real (d * 2 ^ nat s) = 2 ^ nat s * real d" by simp
  finally show ?thesis using True by (simp add: two_powr_nat)
next
  case False
  then have neg: "s < 0" by simp
  have "(d \<le> n * 2 ^ nat (- s)) = (real d \<le> real (n * 2 ^ nat (- s)))"
    by (simp only: of_nat_le_iff)
  also have "real (n * 2 ^ nat (- s)) = real n * 2 ^ nat (- s)" by simp
  also have "(real d \<le> real n * 2 ^ nat (- s)) = (real d / 2 ^ nat (- s) \<le> real n)"
    by (simp add: pos_divide_le_eq)
  finally show ?thesis using False by (simp add: two_powr_neg [OF neg])
qed

lemma binade_bounds:
  assumes n: "0 < n" and d: "0 < d"
  shows "2 powr (real_of_int (binade n d)) * real d \<le> real n"
    and "real n < 2 powr (real_of_int (binade n d) + 1) * real d"
proof -
  let ?s = "int (bit_length n) - int (bit_length d)"
  let ?bn = "real (bit_length n)" and ?bd = "real (bit_length d)"
  have s: "real_of_int ?s = ?bn - ?bd" by simp
  note bn = bit_length_powr [OF n] and bd = bit_length_powr [OF d]
  have rd: "0 < real d" using d by simp
  have "2 powr (?bn - ?bd - 1) * real d \<le> 2 powr (?bn - ?bd - 1) * 2 powr ?bd"
    using bd(2) by (intro mult_left_mono) simp_all
  also have "\<dots> = 2 powr (?bn - 1)" by (simp add: powr_add [symmetric])
  also have "\<dots> \<le> real n" by (rule bn(1))
  finally have low: "2 powr (real_of_int ?s - 1) * real d \<le> real n" by (simp only: s)
  have "real n < 2 powr ?bn" by (rule bn(2))
  also have "\<dots> = 2 powr (?bn - ?bd + 1) * 2 powr (?bd - 1)" by (simp add: powr_add [symmetric])
  also have "\<dots> \<le> 2 powr (?bn - ?bd + 1) * real d"
    using bd(1) by (intro mult_left_mono) simp_all
  finally have high: "real n < 2 powr (real_of_int ?s + 1) * real d" by (simp only: s)
  show "2 powr (real_of_int (binade n d)) * real d \<le> real n"
    and "real n < 2 powr (real_of_int (binade n d) + 1) * real d"
  proof -
    have t: "(if 0 \<le> ?s then d * 2 ^ nat ?s \<le> n else d \<le> n * 2 ^ nat (- ?s))
               = (2 powr (real_of_int ?s) * real d \<le> real n)"
      using d by (rule binade_test)
    show "2 powr (real_of_int (binade n d)) * real d \<le> real n"
    proof (cases "2 powr (real_of_int ?s) * real d \<le> real n")
      case True
      then have "binade n d = ?s" using t by (simp add: binade_def Let_def)
      then show ?thesis using True by (simp only:)
    next
      case False
      then have "binade n d = ?s - 1" using t by (simp add: binade_def Let_def)
      then have "real_of_int (binade n d) = real_of_int ?s - 1" by simp
      then show ?thesis using low by (simp only:)
    qed
    show "real n < 2 powr (real_of_int (binade n d) + 1) * real d"
    proof (cases "2 powr (real_of_int ?s) * real d \<le> real n")
      case True
      then have "binade n d = ?s" using t by (simp add: binade_def Let_def)
      then show ?thesis using high by (simp only:)
    next
      case False
      then have "binade n d = ?s - 1" using t by (simp add: binade_def Let_def)
      then have "real_of_int (binade n d) + 1 = real_of_int ?s" by simp
      then show ?thesis using False by (simp only: not_le)
    qed
  qed
qed

lemma round_to_double_error:
  assumes n: "0 < n" and d: "0 < d"
  shows "\<bar>double_value (round_to_double n d) - real n / real d\<bar> \<le> (real n / real d) / 2 ^ 53"
proof -
  define e where "e = binade n d"
  define k where "k = 52 - e"
  define q where "q = real n / real d"
  define m where "m = (if 0 \<le> k then round_half_even (n * 2 ^ nat k) d
                       else round_half_even n (d * 2 ^ nat (- k)))"
  define p where "p = (2::real) powr real_of_int k"
  have rd: "0 < real d" using d by simp
  have ppos: "0 < p" by (simp add: p_def)
  have r: "round_to_double n d = (m, - k)"
    using n by (simp add: round_to_double_def Let_def m_def k_def e_def)
  have near: "\<bar>real m - q * p\<bar> \<le> 1 / 2"
  proof (cases "0 \<le> k")
    case True
    have "real (n * 2 ^ nat k) / real d = q * 2 ^ nat k" by (simp add: q_def)
    also have "\<dots> = q * p" using True by (simp add: p_def two_powr_nat)
    finally have "real (n * 2 ^ nat k) / real d = q * p" .
    then show ?thesis
      using round_half_even_error [OF d, of "n * 2 ^ nat k"] True by (simp only: m_def if_True)
  next
    case False
    then have neg: "k < 0" by simp
    have d': "0 < d * 2 ^ nat (- k)" using d by simp
    have "real n / real (d * 2 ^ nat (- k)) = q * (1 / 2 ^ nat (- k))" by (simp add: q_def)
    also have "\<dots> = q * p" by (simp only: p_def two_powr_neg [OF neg])
    finally have "real n / real (d * 2 ^ nat (- k)) = q * p" .
    then show ?thesis
      using round_half_even_error [OF d', of n] False by (simp only: m_def if_False)
  qed
  have inv: "2 powr (- real_of_int k) = 1 / p"
    unfolding p_def by (rule powr_minus_divide)
  have v: "double_value (round_to_double n d) = real m / p"
    by (simp add: r double_value_powr inv)
  have "double_value (round_to_double n d) - q = (real m - q * p) / p"
    using ppos by (simp add: v diff_divide_distrib)
  then have "\<bar>double_value (round_to_double n d) - q\<bar> = \<bar>real m - q * p\<bar> / p"
    using ppos by (simp add: abs_divide)
  also have "\<dots> \<le> (1 / 2) / p"
    using near ppos by (intro divide_right_mono) simp_all
  finally have b1: "\<bar>double_value (round_to_double n d) - q\<bar> \<le> (1 / 2) / p" .
  have "2 powr real_of_int e * real d \<le> real n"
    unfolding e_def using n d by (rule binade_bounds(1))
  then have eq: "2 powr real_of_int e \<le> q"
    using rd by (simp add: q_def pos_le_divide_eq)
  have "real_of_int e = 52 - real_of_int k" by (simp add: k_def)
  then have "2 powr real_of_int e = 2 powr (52 - real_of_int k)" by (simp only:)
  also have "\<dots> = 2 powr 52 / p" by (simp add: p_def powr_diff)
  also have "(2::real) powr 52 = 2 ^ 52"
    using powr_realpow [of "2::real" 52] by simp
  finally have "2 ^ 52 / p \<le> q" using eq by simp
  then have "(2 ^ 52 / p) / 2 ^ 53 \<le> q / 2 ^ 53"
    by (intro divide_right_mono) simp_all
  moreover have "(2 ^ 52 / p) / 2 ^ 53 = (1 / 2) / p" by simp
  ultimately have "(1 / 2) / p \<le> q / 2 ^ 53" by (simp only:)
  with b1 show ?thesis unfolding q_def by linarith
qed

lemma double_value_shift:
  "double_value (m, e + s) = double_value (m, e) * 2 powr real_of_int s"
  by (simp add: double_value_powr powr_add)

lemma double_value_zero [simp]: "double_value (0, e) = 0"
  by (simp add: double_value_powr)

lemma round_to_double_zero [simp]: "round_to_double 0 d = (0, 0)"
  by (simp add: round_to_double_def)

lemma round_half_even_one [simp]: "round_half_even n (Suc 0) = n"
  by (simp add: round_half_even_def)

lemma double_of_size_t_exact:
  assumes "n < 2 ^ 53"
  shows "double_value (double_of_size_t n) = real n"
proof (cases "n = 0")
  case True
  then show ?thesis by (simp add: double_of_size_t_def)
next
  case False
  then have n: "0 < n" by simp
  define e where "e = binade n 1"
  have "2 powr real_of_int e * real 1 \<le> real n"
    unfolding e_def using n by (intro binade_bounds(1)) simp_all
  then have le: "2 powr real_of_int e \<le> real n" by simp
  have "real n < real (2 ^ 53)" using assms by (simp only: of_nat_less_iff)
  also have "real (2 ^ 53) = (2::real) ^ 53" by simp
  also have "\<dots> = 2 powr real 53" by (rule powr_realpow [symmetric]) simp
  finally have "real n < (2::real) powr real 53" .
  with le have "2 powr real_of_int e < (2::real) powr real 53" by (rule le_less_trans)
  then have "real_of_int e < real 53" by (simp only: powr_less_cancel_iff one_less_numeral_iff num.distinct semiring_norm)
  then have "real_of_int e < 53" by simp
  then have k: "0 \<le> 52 - e" by simp
  have "round_to_double n 1 = (n * 2 ^ nat (52 - e), - (52 - e))"
    using False k by (simp add: round_to_double_def Let_def e_def)
  then have v: "double_value (double_of_size_t n)
      = real (n * 2 ^ nat (52 - e)) * 2 powr real_of_int (- (52 - e))"
    by (simp only: double_of_size_t_def double_value_powr)
  define A where "A = (2::real) powr real_of_int (52 - e)"
  define B where "B = (2::real) powr real_of_int (- (52 - e))"
  have tp: "(2::real) ^ nat (52 - e) = A"
    unfolding A_def using k by (rule two_powr_nat [symmetric])
  have AB: "A * B = 1" by (simp add: A_def B_def powr_add [symmetric])
  have "real (n * 2 ^ nat (52 - e)) = real n * A"
    by (simp only: of_nat_mult of_nat_power of_nat_numeral tp)
  then have "double_value (double_of_size_t n) = real n * A * B"
    by (simp only: v B_def)
  also have "\<dots> = real n * (A * B)" by (simp only: mult.assoc)
  finally show ?thesis by (simp only: AB mult_1_right)
qed

lemma double_value_pos_iff: "(0 < double_value a) = (0 < fst a)"
  by (cases a) (simp add: double_value_powr zero_less_mult_iff)

lemma double_value_nonneg: "0 \<le> double_value a"
  by (cases a) (simp add: double_value_powr)

lemma double_div_error:
  assumes a: "0 < fst a" and b: "0 < fst b"
  shows "\<bar>double_value (double_div a b) - double_value a / double_value b\<bar>
           \<le> (double_value a / double_value b) / 2 ^ 53"
proof -
  obtain ma ea where A: "a = (ma, ea)" by (cases a)
  obtain mb eb where B: "b = (mb, eb)" by (cases b)
  obtain m e where r: "round_to_double ma mb = (m, e)" by (cases "round_to_double ma mb")
  define c where "c = (2::real) powr real_of_int (ea - eb)"
  have cpos: "0 < c" by (simp add: c_def)
  have ma: "0 < ma" and mb: "0 < mb" using a b A B by simp_all
  have "double_div a b = (m, e + (ea - eb))"
    by (simp add: double_div_def A B r)
  then have v: "double_value (double_div a b) = double_value (round_to_double ma mb) * c"
    by (simp only: double_value_shift r c_def)
  have pc: "2 powr real_of_int ea / 2 powr real_of_int eb = c"
    by (simp add: c_def powr_diff)
  have "(real ma * 2 powr real_of_int ea) / (real mb * 2 powr real_of_int eb)
          = (real ma / real mb) * (2 powr real_of_int ea / 2 powr real_of_int eb)"
    by (rule times_divide_times_eq [symmetric])
  then have q: "double_value a / double_value b = (real ma / real mb) * c"
    by (simp only: A B double_value_powr pc)
  have "double_value (double_div a b) - double_value a / double_value b
          = (double_value (round_to_double ma mb) - real ma / real mb) * c"
    by (simp only: v q left_diff_distrib)
  then have "\<bar>double_value (double_div a b) - double_value a / double_value b\<bar>
          = \<bar>double_value (round_to_double ma mb) - real ma / real mb\<bar> * c"
    using cpos by (simp add: abs_mult)
  also have "\<dots> \<le> ((real ma / real mb) / 2 ^ 53) * c"
    using round_to_double_error [OF ma mb] cpos by (intro mult_right_mono) simp_all
  also have "\<dots> = (double_value a / double_value b) / 2 ^ 53"
    by (simp only: q) simp
  finally show ?thesis .
qed

lemma double_mul_error:
  assumes a: "0 < fst a" and b: "0 < fst b"
  shows "\<bar>double_value (double_mul a b) - double_value a * double_value b\<bar>
           \<le> (double_value a * double_value b) / 2 ^ 53"
proof -
  obtain ma ea where A: "a = (ma, ea)" by (cases a)
  obtain mb eb where B: "b = (mb, eb)" by (cases b)
  obtain m e where r: "round_to_double (ma * mb) 1 = (m, e)"
    by (cases "round_to_double (ma * mb) 1")
  define c where "c = (2::real) powr real_of_int (ea + eb)"
  have cpos: "0 < c" by (simp add: c_def)
  have mm: "0 < ma * mb" using a b A B by simp
  have one: "0 < (1::nat)" by simp
  have "double_mul a b = (m, e + (ea + eb))"
    by (simp add: double_mul_def A B r del: One_nat_def)
  then have v: "double_value (double_mul a b) = double_value (round_to_double (ma * mb) 1) * c"
    by (simp only: double_value_shift r c_def)
  have "2 powr real_of_int ea * 2 powr real_of_int eb = c"
    by (simp add: c_def powr_add)
  then have "real ma * 2 powr real_of_int ea * (real mb * 2 powr real_of_int eb)
               = (real ma * real mb) * c"
    by (simp add: mult_ac)
  then have q: "double_value a * double_value b = (real (ma * mb) / real 1) * c"
    by (simp add: A B double_value_powr)
  have "double_value (double_mul a b) - double_value a * double_value b
          = (double_value (round_to_double (ma * mb) 1) - real (ma * mb) / real 1) * c"
    by (simp only: v q left_diff_distrib)
  then have "\<bar>double_value (double_mul a b) - double_value a * double_value b\<bar>
          = \<bar>double_value (round_to_double (ma * mb) 1) - real (ma * mb) / real 1\<bar> * c"
    using cpos by (simp add: abs_mult)
  also have "\<dots> \<le> ((real (ma * mb) / real 1) / 2 ^ 53) * c"
    using round_to_double_error [OF mm one] cpos by (intro mult_right_mono) simp_all
  also have "\<dots> = (double_value a * double_value b) / 2 ^ 53"
    by (simp only: q) simp
  finally show ?thesis .
qed

lemma utilization_zero: "utilization 0 t = 0"
  by (simp add: utilization_def double_of_size_t_def double_div_def double_mul_def)

lemma utilization_error:
  assumes t: "0 < t" "t < 2 ^ 53" and u: "u \<le> t"
  shows "\<bar>utilization u t - real u / real t * 100\<bar> \<le> (real u / real t * 100) / 2 ^ 51"
proof (cases "u = 0")
  case True
  then show ?thesis by (simp add: utilization_zero)
next
  case False
  define A where "A = double_of_size_t u"
  define B where "B = double_of_size_t t"
  define C where "C = double_of_size_t 100"
  define Q where "Q = double_div A B"
  define q where "q = real u / real t"
  define eps where "eps = (1::real) / 2 ^ 53"
  have u53: "u < 2 ^ 53" using u t(2) by simp
  have vA: "double_value A = real u" unfolding A_def using u53 by (rule double_of_size_t_exact)
  have vB: "double_value B = real t" unfolding B_def using t(2) by (rule double_of_size_t_exact)
  have vC: "double_value C = 100"
    unfolding C_def using double_of_size_t_exact [of 100] by simp
  have fA: "0 < fst A" using vA False by (simp add: double_value_pos_iff [symmetric])
  have fB: "0 < fst B" using vB t(1) by (simp add: double_value_pos_iff [symmetric])
  have fC: "0 < fst C" using vC by (simp add: double_value_pos_iff [symmetric])
  have qpos: "0 < q" using False t(1) by (simp add: q_def)
  have eps: "0 < eps" "eps < 1" by (simp_all add: eps_def)
  have eq: "\<bar>double_value Q - q\<bar> \<le> q * eps"
    using double_div_error [OF fA fB] by (simp add: Q_def vA vB q_def eps_def)
  then have Qlo: "q * (1 - eps) \<le> double_value Q" and Qhi: "double_value Q \<le> q * (1 + eps)"
    by (simp_all add: abs_le_iff algebra_simps)
  have "0 < q * (1 - eps)" using qpos eps by simp
  then have "0 < double_value Q" using Qlo by linarith
  then have fQ: "0 < fst Q" by (simp add: double_value_pos_iff)
  have eu: "\<bar>utilization u t - double_value Q * 100\<bar> \<le> double_value Q * 100 * eps"
    using double_mul_error [OF fQ fC]
    by (simp add: utilization_def Q_def A_def B_def C_def vC [unfolded C_def] eps_def)
  define W where "W = double_value Q * 100"
  define E where "E = q * 100"
  have Epos: "0 < E" using qpos by (simp add: E_def)
  have d1: "\<bar>utilization u t - W\<bar> \<le> W * eps" using eu by (simp only: W_def)
  have wE: "W - E = (double_value Q - q) * 100" by (simp add: W_def E_def)
  have "\<bar>W - E\<bar> = \<bar>double_value Q - q\<bar> * 100" unfolding wE abs_mult by simp
  also have "\<dots> \<le> (q * eps) * 100" using eq by simp
  also have "\<dots> = E * eps" by (simp add: E_def)
  finally have d2: "\<bar>W - E\<bar> \<le> E * eps" .
  have "W \<le> q * (1 + eps) * 100" using Qhi by (simp add: W_def)
  also have "\<dots> = E * (1 + eps)" by (simp add: E_def)
  finally have "W \<le> E * (1 + eps)" .
  then have d3: "W * eps \<le> E * (1 + eps) * eps"
    using eps(1) by (intro mult_right_mono) simp_all
  have "\<bar>utilization u t - E\<bar> \<le> \<bar>utilization u t - W\<bar> + \<bar>W - E\<bar>" by linarith
  also have "\<dots> \<le> E * (1 + eps) * eps + E * eps" using d1 d2 d3 by linarith
  also have "\<dots> = E * (eps * (2 + eps))" by (simp add: distrib_left distrib_right mult.commute)
  also have "\<dots> \<le> E * (eps * 4)"
    using Epos eps by (intro mult_left_mono) simp_all
  also have "\<dots> = E / 2 ^ 51" by (simp add: eps_def)
  finally show ?thesis by (simp only: E_def q_def)
qed

lemma utilization_7_100: "utilization 7 100 = 7 + 1 / 2 ^ 50"
  by (simp add: utilization_def double_of_size_t_def double_div_def double_mul_def
      round_to_double_def binade_def round_half_even_def bit_length.simps Let_def
      double_value_def)

lemma utilization_5_10: "utilization 5 10 = 50"
  by (simp add: utilization_def double_of_size_t_def double_div_def double_mul_def
      round_to_double_def binade_def round_half_even_def bit_length.simps Let_def
      double_value_def)

lemma utilization_1_3: "utilization 1 3 = 4691249611844266 / 2 ^ 47"
  by (simp add: utilization_def double_of_size_t_def double_div_def double_mul_def
      round_to_double_def binade_def round_half_even_def bit_length.simps Let_def
      double_value_def)

section \<open>Statistics, release and traces\<close>

lemma fold_count_free:
  "fold (\<lambda>segment c. if available segment then c + 1 else c) segs n
     = n + length (filter available segs)"
  by (induction segs arbitrary: n) simp_all

lemma get_pool_stats_impl_eq:
  "get_pool_stats_impl pool =
     \<lparr>total_objects = length (segments pool),
      free_objects = length (filter available (segments pool)),
      used_objects = length (segments pool) - length (filter available (segments pool)),
      utilization_percent =
        (if length (segments pool) > 0
         then utilization (length (segments pool) - length (filter available (segments pool)))
                (length (segments pool))
         else 0)\<rparr>"
  by (simp add: get_pool_stats_impl_def fold_count_free Let_def utilization_def)

lemma segments_new [simp]:
  "segments (LockFreeMemoryPool_new n :: 'v LockFreeMemoryPool) = replicate n \<lparr>memory = None, available = True\<rparr>"
  by (simp add: LockFreeMemoryPool_new_def Segment_default_def)

lemma search_start_new [simp]:
  "search_start (LockFreeMemoryPool_new n) = 0"
  by (simp add: LockFreeMemoryPool_new_def)

lemma allocate_fast_empty:
  "segments pool = [] \<Longrightarrow> allocate_fast T args sp pool = (Inr nullptr, pool, [])"
  by (simp add: allocate_fast_char)

lemma deallocate_impl_safe_cases:
  "deallocate_impl_safe pool elem = (Inl UndefinedBehaviour, pool) \<or>
   (\<exists>pool'. deallocate_impl_safe pool elem = (Inr True, pool'))"
  by (simp add: deallocate_impl_safe_def split: pointer.splits)

lemma destroy_and_release_no_abort:
  "fst (destroy_and_release ndebug pool elem) \<noteq> Inl AssertionAbort"
proof (cases "destroy pool elem")
  case (fields r pool1 tr)
  show ?thesis
  proof (cases r)
    case (Inl e)
    then have "e = UndefinedBehaviour"
      using fields by (auto simp: destroy_def split: pointer.splits if_splits)
    then show ?thesis using fields Inl by (simp add: destroy_and_release_def)
  next
    case (Inr u)
    from deallocate_impl_safe_cases [of pool1 elem] show ?thesis
      using fields Inr by (auto simp: destroy_and_release_def SAFE_CALL_def split: if_splits)
  qed
qed

lemma retry_loop_find:
  "retry_loop spur flag 0 =
     (if \<not> flag then [Occupied]
      else case find (\<lambda>r. \<not> spur r) [0..<max_spurious_retries] of
             None \<Rightarrow> replicate max_spurious_retries Spurious
           | Some r \<Rightarrow> replicate r Spurious @ [Claimed])"
  by (simp add: retry_loop_unfold max_spurious_retries_def upt_3 numeral_3_eq_3 numeral_2_eq_2)

lemma claim_succeeds_find:
  "claim_succeeds sp pool k =
     (available (segments pool ! ((search_start pool + k) mod length (segments pool))) \<and>
      find (\<lambda>r. \<not> sp k r) [0..<max_spurious_retries] \<noteq> None)"
  by (auto simp: claim_succeeds_iff find_None_iff)

lemma allocate_fast_trace_exact:
  "snd (snd (allocate_fast T args sp pool)) =
     map (\<lambda>k. Probe ((search_start pool + k) mod length (segments pool))
            (retry_loop (sp k) (available (segments pool !
               ((search_start pool + k) mod length (segments pool)))) 0))
       [0..<(case find (claim_succeeds sp pool) [0..<length (segments pool)] of
               None \<Rightarrow> length (segments pool) | Some k \<Rightarrow> Suc k)]"
  by (simp add: allocate_fast_char split: option.splits)

lemma find_retries_all_spurious:
  "find (\<lambda>r. \<not> spurious_on_first_probe 0 r) [0..<max_spurious_retries] = None"
  by (simp add: find_upt_None spurious_on_first_probe_def)

lemma find_retries_first:
  "0 < k \<Longrightarrow> find (\<lambda>r. \<not> spurious_on_first_probe k r) [0..<max_spurious_retries] = Some 0"
  by (simp add: find_upt_Some spurious_on_first_probe_def max_spurious_retries_def)

lemma replicate_retries: "replicate max_spurious_retries x = [x, x, x]"
  by (simp add: max_spurious_retries_def numeral_3_eq_3)

section \<open>Success and failure of an allocation\<close>

lemma claim_succeeds_available:
  "claim_succeeds sp pool k \<Longrightarrow>
     available (segments pool ! ((search_start pool + k) mod length (segments pool)))"
  by (simp add: claim_succeeds_iff)

lemma probes_cover:
  assumes "i < (n::nat)"
  shows "\<exists>k<n. (start + k) mod n = i"
proof (intro exI conjI)
  let ?x = "i + (n - start mod n)"
  show "?x mod n < n" using assms by simp
  have "start mod n \<le> n" using assms by (simp add: less_imp_le)
  then have e: "start mod n + ?x = i + n" by simp
  have "(start + ?x mod n) mod n = (start + ?x) mod n"
    by (rule mod_add_right_eq)
  also have "\<dots> = (start mod n + ?x) mod n"
    by (rule mod_add_left_eq [symmetric])
  also have "\<dots> = i" unfolding e using assms by simp
  finally show "(start + ?x mod n) mod n = i" .
qed

lemma some_probe_succeeds:
  assumes "i < length (segments pool)" "available (segments pool ! i)"
      "no_starvation sp (length (segments pool))"
  shows "\<exists>k < length (segments pool). claim_succeeds sp pool k"
proof -
  obtain k where k: "k < length (segments pool)"
      "(search_start pool + k) mod length (segments pool) = i"
    using probes_cover [OF assms(1)] by blast
  have "\<exists>r < max_spurious_retries. \<not> sp k r"
    using assms(3) k(1) by (simp add: no_starvation_iff)
  then have "claim_succeeds sp pool k"
    using k(2) assms(2) by (simp add: claim_succeeds_iff)
  then show ?thesis using k(1) by blast
qed

lemma first_probe_exists:
  fixes P :: "nat \<Rightarrow> bool"
  assumes "\<exists>k<n. P k"
  shows "\<exists>k<n. P k \<and> (\<forall>j<k. \<not> P j)"
proof (cases "find P [0..<n]")
  case None
  then have "\<forall>k<n. \<not> P k" by (simp add: find_upt_None)
  with assms show ?thesis by blast
next
  case (Some k)
  then have "k < n \<and> P k \<and> (\<forall>j<k. \<not> P j)" by (simp add: find_upt_Some)
  then show ?thesis by (intro exI [of _ k])
qed

lemma allocate_fast_succeeds:
  assumes "i < length (segments pool)" "available (segments pool ! i)"
      "no_starvation sp (length (segments pool))" "T args = Some v"
  shows "\<exists>j < length (segments pool). fst (allocate_fast T args sp pool) = Inr (SlotAddr (int j))
           \<and> available (segments pool ! j)"
proof -
  obtain k where k: "k < length (segments pool)" "claim_succeeds sp pool k"
      "\<forall>j<k. \<not> claim_succeeds sp pool j"
    using first_probe_exists [OF some_probe_succeeds [OF assms(1-3)]] by blast
  let ?j = "(search_start pool + k) mod length (segments pool)"
  have "?j < length (segments pool)" using k(1) by (cases "segments pool") simp_all
  moreover have "fst (allocate_fast T args sp pool) = Inr (SlotAddr (int ?j))"
  proof -
    from allocate_fast_claims [OF k, of T args] obtain tr where
      "allocate_fast T args sp pool =
         (case T args of
            Some v \<Rightarrow> (Inr (SlotAddr (int ?j)),
                pool\<lparr>segments := (segments pool)[?j := \<lparr>memory = Some v, available = False\<rparr>],
                     search_start := (?j + 1) mod length (segments pool)\<rparr>, tr)
          | None \<Rightarrow> (Inl ConstructorException,
                pool\<lparr>segments := (segments pool)[?j := \<lparr>memory = None, available = True\<rparr>]\<rparr>, tr))"
      by blast
    then show ?thesis by (simp add: assms(4))
  qed
  moreover have "available (segments pool ! ?j)"
    using k(2) by (rule claim_succeeds_available)
  ultimately show ?thesis by blast
qed

lemma allocate_fast_throws:
  assumes "T args = None"
  shows "(\<exists>k. k < length (segments pool) \<and> claim_succeeds sp pool k \<and>
              (\<forall>j<k. \<not> claim_succeeds sp pool j) \<and>
              (\<exists>tr. allocate_fast T args sp pool =
                 (Inl ConstructorException,
                  pool\<lparr>segments := (segments pool)
                     [(search_start pool + k) mod length (segments pool) :=
                        \<lparr>memory = None, available = True\<rparr>]\<rparr>, tr)))
       \<or> ((\<forall>k < length (segments pool). \<not> claim_succeeds sp pool k) \<and>
           (\<exists>tr. allocate_fast T args sp pool = (Inr nullptr, pool, tr)))"
proof (cases "\<exists>k < length (segments pool). claim_succeeds sp pool k")
  case True
  then obtain k where k: "k < length (segments pool)" "claim_succeeds sp pool k"
      "\<forall>j<k. \<not> claim_succeeds sp pool j"
    using first_probe_exists [of "length (segments pool)" "claim_succeeds sp pool"] by blast
  from allocate_fast_claims [OF k, of T args] obtain tr where
    "allocate_fast T args sp pool =
       (case T args of
          Some v \<Rightarrow> (Inr (SlotAddr (int ((search_start pool + k) mod length (segments pool)))),
              pool\<lparr>segments := (segments pool)[(search_start pool + k) mod length (segments pool) :=
                       \<lparr>memory = Some v, available = False\<rparr>],
                   search_start := ((search_start pool + k) mod length (segments pool) + 1)
                       mod length (segments pool)\<rparr>, tr)
        | None \<Rightarrow> (Inl ConstructorException,
              pool\<lparr>segments := (segments pool)[(search_start pool + k) mod length (segments pool) :=
                       \<lparr>memory = None, available = True\<rparr>]\<rparr>, tr))"
    by blast
  then have "allocate_fast T args sp pool =
      (Inl ConstructorException,
       pool\<lparr>segments := (segments pool)[(search_start pool + k) mod length (segments pool) :=
                       \<lparr>memory = None, available = True\<rparr>]\<rparr>, tr)"
    by (simp add: assms)
  then show ?thesis using k by blast
next
  case False
  then have "\<forall>k < length (segments pool). \<not> claim_succeeds sp pool k" by blast
  from allocate_fast_exhausted [OF this, of T args] this show ?thesis by blast
qed

lemma flags_after_restore:
  assumes "i < length segs" "available (segs ! i)"
  shows "map available (segs[i := \<lparr>memory = None, available = True\<rparr>]) = map available segs"
  using assms by (simp add: map_update list_update_same_conv)

lemma allocate_fast_throws_frame:
  assumes "T args = None"
  shows "(fst (allocate_fast T args sp pool) = Inl ConstructorException \<or>
          fst (allocate_fast T args sp pool) = Inr nullptr)
       \<and> ((\<exists>k < length (segments pool). claim_succeeds sp pool k) \<longrightarrow>
            fst (allocate_fast T args sp pool) = Inl ConstructorException)
       \<and> map available (segments (fst (snd (allocate_fast T args sp pool))))
            = map available (segments pool)
       \<and> search_start (fst (snd (allocate_fast T args sp pool))) = search_start pool"
  using allocate_fast_throws [where T = T and args = args and pool = pool and sp = sp, OF assms]
proof (elim disjE exE conjE)
  fix k tr
  assume k: "k < length (segments pool)" "claim_succeeds sp pool k"
    and eq: "allocate_fast T args sp pool =
      (Inl ConstructorException,
       pool\<lparr>segments := (segments pool)[(search_start pool + k) mod length (segments pool) :=
                 \<lparr>memory = None, available = True\<rparr>]\<rparr>, tr)"
  have "(search_start pool + k) mod length (segments pool) < length (segments pool)"
    using k(1) by (cases "segments pool") simp_all
  then show ?thesis
    using claim_succeeds_available [OF k(2)]
    by (simp add: eq flags_after_restore)
next
  fix tr
  assume "\<forall>k<length (segments pool). \<not> claim_succeeds sp pool k"
    and "allocate_fast T args sp pool = (Inr nullptr, pool, tr)"
  then show ?thesis by simp
qed

lemma allocate_safe_of_fast:
  "allocate_safe T args sp pool =
     (case fst (allocate_fast T args sp pool) of
        Inl ConstructorException \<Rightarrow> Inr nullptr
      | Inl e \<Rightarrow> Inl e
      | Inr ptr \<Rightarrow> Inr ptr,
      snd (allocate_fast T args sp pool))"
  by (simp add: allocate_safe_def split: prod.splits sum.splits error.splits)

lemma test_pool_throw_find:
  "find (claim_succeeds never_spurious test_pool) [0..<length (segments test_pool)] = Some 0"
  by (simp add: find_upt_Some claim_succeeds_iff never_spurious_def test_pool_def)

lemma test_pool_throw:
  "allocate_fast ThrowingType True never_spurious test_pool =
     (Inl ConstructorException, test_pool, [Probe 1 [Claimed]])"
  apply (simp add: allocate_fast_char test_pool_throw_find)
  apply (simp add: test_pool_def claimed_body_None ThrowingType_def retry_loop_unfold
      never_spurious_def)
  done

lemma test_pool_starved:
  "allocate_fast ThrowingType False always_spurious test_pool =
     (Inr nullptr, test_pool, [Probe 1 [Spurious, Spurious, Spurious], Probe 0 [Occupied]])"
proof -
  have "find (claim_succeeds always_spurious test_pool) [0..<length (segments test_pool)] = None"
    by (simp add: find_upt_None claim_succeeds_iff always_spurious_def)
  then show ?thesis
    apply (simp add: allocate_fast_char)
    apply (simp add: test_pool_def retry_loop_unfold always_spurious_def upt_rec)
    done
qed

section \<open>Histories\<close>

lemma claimed_body_length [simp]:
  "length (segments (snd (claimed_body T args pool idx))) = length (segments pool)"
  by (simp add: claimed_body_def store_available_def set_memory_def Let_def split: option.splits)

lemma allocate_fast_length:
  "length (segments (fst (snd (allocate_fast T args sp pool)))) = length (segments pool)"
  by (simp add: allocate_fast_char split: option.splits)

lemma allocate_safe_length:
  "length (segments (fst (snd (allocate_safe T args sp pool)))) = length (segments pool)"
  by (simp add: allocate_safe_of_fast allocate_fast_length)

lemma destroy_and_release_length:
  "length (segments (fst (snd (destroy_and_release ndebug pool elem)))) = length (segments pool)"
  by (simp add: destroy_and_release_def destroy_def deallocate_impl_safe_def
      store_available_def set_memory_def split: pointer.splits prod.splits sum.splits)

lemma step_length:
  "length (segments (snd (step T ndebug x pool))) = length (segments pool)"
proof (cases x)
  case (Alloc args sp)
  then show ?thesis
    using allocate_fast_length [of T args sp pool] by (auto split: prod.splits)
next
  case (AllocSafe args sp)
  then show ?thesis
    using allocate_safe_length [of T args sp pool] by (auto split: prod.splits)
next
  case (Dealloc ptr)
  then show ?thesis
    using destroy_and_release_length [of ndebug pool ptr]
    by (auto simp: deallocate_fast_def split: prod.splits)
next
  case (DropHandle ptr)
  then show ?thesis
    using destroy_and_release_length [of ndebug pool ptr]
    by (auto simp: PoolDeleter_def split: prod.splits)
qed













lemma step_Alloc:
  "step T ndebug (Alloc args sp) pool =
     (alloc_result (fst (allocate_fast T args sp pool)), fst (snd (allocate_fast T args sp pool)))"
  by (simp split: prod.splits)




section \<open>Occupied slots along a history\<close>

lemma probe_index_less:
  "k < length (segments pool) \<Longrightarrow>
     (search_start pool + k) mod length (segments pool) < length (segments pool)"
  by (cases "segments pool") simp_all

lemma allocate_fast_returns_slot:
  assumes "fst (allocate_fast T args sp pool) = Inr (SlotAddr d)"
  shows "\<exists>i < length (segments pool). d = int i \<and> available (segments pool ! i) \<and>
           \<not> available (segments (fst (snd (allocate_fast T args sp pool))) ! i)"
proof (cases "find (claim_succeeds sp pool) [0..<length (segments pool)]")
  case None
  then show ?thesis using assms by (simp add: allocate_fast_char)
next
  case (Some k)
  let ?i = "(search_start pool + k) mod length (segments pool)"
  from Some have k: "k < length (segments pool)" "claim_succeeds sp pool k"
    by (simp_all add: find_upt_Some)
  have i: "?i < length (segments pool)" using k(1) by (rule probe_index_less)
  have av: "available (segments pool ! ?i)" using k(2) by (rule claim_succeeds_available)
  show ?thesis
  proof (cases "T args")
    case None
    then show ?thesis using assms Some i
      by (simp add: allocate_fast_char claimed_body_None)
  next
    case (Some v)
    then show ?thesis using assms \<open>find _ _ = Some k\<close> i av
      by (intro exI [of _ ?i]) (simp add: allocate_fast_char claimed_body_Some)
  qed
qed

lemma allocate_fast_keeps_occupied:
  assumes "i < length (segments pool)" "\<not> available (segments pool ! i)"
  shows "\<not> available (segments (fst (snd (allocate_fast T args sp pool))) ! i)"
proof (cases "find (claim_succeeds sp pool) [0..<length (segments pool)]")
  case None
  then show ?thesis using assms by (simp add: allocate_fast_char)
next
  case (Some k)
  let ?j = "(search_start pool + k) mod length (segments pool)"
  from Some have k: "k < length (segments pool)" "claim_succeeds sp pool k"
    by (simp_all add: find_upt_Some)
  have j: "?j < length (segments pool)" using k(1) by (rule probe_index_less)
  have "available (segments pool ! ?j)" using k(2) by (rule claim_succeeds_available)
  then have ne: "?j \<noteq> i" using assms(2) by auto
  show ?thesis
  proof (cases "T args")
    case None
    then show ?thesis using Some j ne assms
      by (simp add: allocate_fast_char claimed_body_None)
  next
    case (Some v)
    then show ?thesis using \<open>find _ _ = Some k\<close> j ne assms
      by (simp add: allocate_fast_char claimed_body_Some)
  qed
qed

lemma release_keeps_occupied:
  assumes "i < length (segments pool)" "\<not> available (segments pool ! i)"
      "ptr \<noteq> SlotAddr (int i)"
  shows "\<not> available (segments (fst (snd (destroy_and_release ndebug pool ptr))) ! i)"
proof (cases ptr)
  case nullptr
  then show ?thesis using assms
    by (simp add: destroy_and_release_def destroy_def)
next
  case (SlotAddr d)
  show ?thesis
  proof (cases "0 \<le> d \<and> nat d < length (segments pool)")
    case True
    then have "nat d \<noteq> i" using assms(3) SlotAddr by auto
    then show ?thesis using assms(1,2) True SlotAddr
      by (simp add: destroy_and_release_def destroy_def deallocate_impl_safe_def
          store_available_def set_memory_def split: prod.splits sum.splits)
  next
    case False
    then show ?thesis using assms(1,2) SlotAddr
      by (auto simp: destroy_and_release_def destroy_def)
  qed
qed

lemma step_keeps_occupied:
  assumes "i < length (segments pool)" "\<not> available (segments pool ! i)" "\<not> releases i x"
  shows "\<not> available (segments (snd (step T ndebug x pool)) ! i)"
proof (cases x)
  case (Alloc args sp)
  then show ?thesis
    using allocate_fast_keeps_occupied [OF assms(1,2), of T args sp]
    by (auto split: prod.splits)
next
  case (AllocSafe args sp)
  then show ?thesis
    using allocate_fast_keeps_occupied [OF assms(1,2), of T args sp]
    by (auto simp: allocate_safe_of_fast split: prod.splits)
next
  case (Dealloc ptr)
  then have "ptr \<noteq> SlotAddr (int i)" using assms(3) by (simp add: releases_def)
  from release_keeps_occupied [OF assms(1,2) this, of ndebug]
  show ?thesis using Dealloc assms(2)
    by (auto simp: deallocate_fast_def split: prod.splits)
next
  case (DropHandle ptr)
  then have "ptr \<noteq> SlotAddr (int i)" using assms(3) by (simp add: releases_def)
  from release_keeps_occupied [OF assms(1,2) this, of ndebug]
  show ?thesis using DropHandle assms(2)
    by (auto simp: PoolDeleter_def split: prod.splits)
qed

lemma step_returns_slot:
  assumes "fst (step T ndebug x pool) = Allocated (SlotAddr d)"
  shows "0 \<le> d \<and> nat d < length (segments pool) \<and> available (segments pool ! nat d) \<and>
         \<not> available (segments (snd (step T ndebug x pool)) ! nat d)"
proof (cases x)
  case (Alloc args sp)
  then have "fst (allocate_fast T args sp pool) = Inr (SlotAddr d)"
    using assms by (auto simp: alloc_result_def split: prod.splits sum.splits)
  from allocate_fast_returns_slot [OF this] show ?thesis
    using Alloc by (auto split: prod.splits)
next
  case (AllocSafe args sp)
  then have "fst (allocate_fast T args sp pool) = Inr (SlotAddr d)"
    using assms
    by (auto simp: alloc_result_def allocate_safe_of_fast split: prod.splits sum.splits error.splits)
  from allocate_fast_returns_slot [OF this] show ?thesis
    using AllocSafe by (auto simp: allocate_safe_of_fast split: prod.splits)
next
  case (Dealloc ptr)
  then show ?thesis using assms
    by (auto simp: release_result_def split: prod.splits sum.splits)
next
  case (DropHandle ptr)
  then show ?thesis using assms
    by (auto simp: release_result_def split: prod.splits sum.splits)
qed

lemma run_Cons:
  "fst (run T ndebug (x # xs) pool) =
     (if fatal (fst (step T ndebug x pool)) then [fst (step T ndebug x pool)]
      else fst (step T ndebug x pool) # fst (run T ndebug xs (snd (step T ndebug x pool))))"
  by (simp split: prod.splits)

lemma run_no_realloc:
  assumes "i < length (segments pool)" "\<not> available (segments pool ! i)"
      "k < length (fst (run T ndebug ops pool))" "\<forall>m<k. \<not> releases i (ops ! m)"
  shows "fst (run T ndebug ops pool) ! k \<noteq> Allocated (SlotAddr (int i))"
  using assms
proof (induction ops arbitrary: k pool)
  case Nil
  then show ?case by simp
next
  case (Cons x xs)
  let ?r = "fst (step T ndebug x pool)" and ?p = "snd (step T ndebug x pool)"
  show ?case
  proof (cases k)
    case 0
    have "?r \<noteq> Allocated (SlotAddr (int i))"
      using step_returns_slot [of T ndebug x pool "int i"] Cons.prems(2) by auto
    then show ?thesis using 0 by (simp add: run_Cons del: run.simps)
  next
    case (Suc k')
    have nf: "\<not> fatal ?r"
      using Cons.prems(3) Suc by (auto simp: run_Cons simp del: run.simps split: if_splits)
    have "\<not> releases i x" using Cons.prems(4) Suc by auto
    then have occ: "\<not> available (segments ?p ! i)"
      using Cons.prems(1,2) by (intro step_keeps_occupied)
    have len: "i < length (segments ?p)"
      using Cons.prems(1) by (simp add: step_length)
    have k': "k' < length (fst (run T ndebug xs ?p))"
      using Cons.prems(3) Suc nf by (simp add: run_Cons del: run.simps)
    have rel: "\<forall>m<k'. \<not> releases i (xs ! m)"
      using Cons.prems(4) Suc by auto
    from Cons.IH [OF len occ k' rel] show ?thesis
      using Suc nf by (simp add: run_Cons del: run.simps)
  qed
qed

lemma run_no_alias:
  assumes "j < k" "k < length (fst (run T ndebug ops pool))"
      "fst (run T ndebug ops pool) ! j = Allocated (SlotAddr d)"
      "fst (run T ndebug ops pool) ! k = Allocated (SlotAddr d)"
  shows "\<exists>m. j < m \<and> m < k \<and> releases (nat d) (ops ! m)"
  using assms
proof (induction ops arbitrary: j k pool)
  case Nil
  then show ?case by simp
next
  case (Cons x xs)
  let ?r = "fst (step T ndebug x pool)" and ?p = "snd (step T ndebug x pool)"
  obtain k' where k: "k = Suc k'" using Cons.prems(1) by (cases k) simp_all
  have nf: "\<not> fatal ?r"
    using Cons.prems(2) k by (auto simp: run_Cons simp del: run.simps split: if_splits)
  have rs: "fst (run T ndebug (x # xs) pool) = ?r # fst (run T ndebug xs ?p)"
    using nf by (simp add: run_Cons del: run.simps)
  have k': "k' < length (fst (run T ndebug xs ?p))"
    and rk: "fst (run T ndebug xs ?p) ! k' = Allocated (SlotAddr d)"
    using Cons.prems(2,4) k by (simp_all add: rs del: run.simps)
  show ?case
  proof (cases j)
    case 0
    then have "?r = Allocated (SlotAddr d)"
      using Cons.prems(3) by (simp add: rs del: run.simps)
    from step_returns_slot [OF this]
    have d: "0 \<le> d" and i: "nat d < length (segments ?p)"
      and occ: "\<not> available (segments ?p ! nat d)"
      by (simp_all add: step_length)
    have "\<not> (\<forall>m<k'. \<not> releases (nat d) (xs ! m))"
      using run_no_realloc [OF i occ k'] rk d by auto
    then obtain m where "m < k'" "releases (nat d) (xs ! m)" by blast
    then show ?thesis using 0 k by (intro exI [of _ "Suc m"]) simp
  next
    case (Suc j')
    then have "j' < k'" and "fst (run T ndebug xs ?p) ! j' = Allocated (SlotAddr d)"
      using Cons.prems(1,3) k by (simp_all add: rs del: run.simps)
    from Cons.IH [OF this(1) k' this(2) rk]
    obtain m where "j' < m" "m < k'" "releases (nat d) (xs ! m)" by blast
    then show ?thesis using Suc k by (intro exI [of _ "Suc m"]) simp
  qed
qed

lemma never_spurious_first:
  assumes "available (segments pool ! (search_start pool mod length (segments pool)))"
    "0 < length (segments pool)"
  shows "find (claim_succeeds never_spurious pool) [0..<length (segments pool)] = Some 0"
  using assms by (simp add: find_upt_Some claim_succeeds_iff never_spurious_def)

lemma allocate_fast_first_free:
  assumes "available (segments pool ! (search_start pool mod length (segments pool)))"
    "0 < length (segments pool)"
  shows "fst (allocate_fast ThrowingType False never_spurious pool) =
           Inr (SlotAddr (int (search_start pool mod length (segments pool))))"
    and "fst (snd (allocate_fast ThrowingType False never_spurious pool)) =
           pool\<lparr>segments := (segments pool)[search_start pool mod length (segments pool) :=
                    \<lparr>memory = Some (), available = False\<rparr>],
                search_start := (search_start pool mod length (segments pool) + 1)
                    mod length (segments pool)\<rparr>"
  using assms
  by (simp_all add: allocate_fast_char never_spurious_first claimed_body_Some ThrowingType_def)

lemma new_2:
  "(LockFreeMemoryPool_new 2 :: unit LockFreeMemoryPool) =
     \<lparr>segments = [\<lparr>memory = None, available = True\<rparr>, \<lparr>memory = None, available = True\<rparr>],
      search_start = 0\<rparr>"
  by (simp add: LockFreeMemoryPool_new_def Segment_default_def numeral_2_eq_2)

lemma step_AllocSafe:
  "step T ndebug (AllocSafe args sp) pool =
     (alloc_result (fst (allocate_safe T args sp pool)), fst (snd (allocate_safe T args sp pool)))"
  by (simp split: prod.splits)

lemma step_Dealloc:
  "step T ndebug (Dealloc ptr) pool =
     (release_result (fst (deallocate_fast ndebug pool ptr)),
      fst (snd (deallocate_fast ndebug pool ptr)))"
  by (simp split: prod.splits)

lemma reuse_history_run:
  "fst (run ThrowingType False reuse_history (LockFreeMemoryPool_new 2)) =
     [Allocated (SlotAddr 0), Allocated (SlotAddr 1), Released, Allocated (SlotAddr 0)]"
  unfolding reuse_history_def new_2
  by (simp add: step_Alloc step_AllocSafe step_Dealloc allocate_safe_of_fast
      allocate_fast_first_free alloc_result_def release_result_def fatal_def
      deallocate_fast_def destroy_and_release_def destroy_def deallocate_impl_safe_def
      store_available_def set_memory_def SAFE_CALL_def
      del: step.simps)

section \<open>The claim algorithm\<close>

text \<open>
  C1, as the claim states it, fails: in the pool of two slots with slot 0 occupied and the
  hint at 1, the first probe wins slot 1, and with a constructor that throws the call
  returns neither that slot nor null: the exception leaves it, slot 1 is free again and
  the hint is still 1, not \<open>(1 + 1) mod 2 = 0\<close>.
\<close>

theorem allocate_fast_throwing_winner:
  "claim_succeeds never_spurious test_pool 0
   \<and> (search_start test_pool + 0) mod length (segments test_pool) = 1
   \<and> ThrowingType True = None
   \<and> fst (allocate_fast ThrowingType True never_spurious test_pool) = Inl ConstructorException
   \<and> fst (allocate_fast ThrowingType True never_spurious test_pool) \<noteq> Inr (SlotAddr 1)
   \<and> fst (allocate_fast ThrowingType True never_spurious test_pool) \<noteq> Inr nullptr
   \<and> search_start (fst (snd (allocate_fast ThrowingType True never_spurious test_pool))) = 1
   \<and> (1 + 1) mod length (segments test_pool) = 0"
  by (simp add: test_pool_throw)
     (simp add: claim_succeeds_iff never_spurious_def test_pool_def ThrowingType_def)

text \<open>
  C1, amended. A call of \<^verbatim>\<open>allocate_fast\<close> reads the hint as \<open>start\<close> and probes the slots
  \<open>(start + k) mod N\<close> for \<open>k = 0, 1, \<dots>\<close> in this order. If no probe below \<open>N\<close> wins
  its slot, all \<open>N\<close> slots are probed, the pool is left as it was and the call returns
  null. Otherwise, with \<open>k\<close> the first probe that wins its slot \<open>i = (start + k) mod N\<close>,
  exactly the probes \<open>0, \<dots>, k\<close> are made. When the constructor of \<open>T\<close> completes, slot
  \<open>i\<close> is marked occupied and holds the object, the hint becomes \<open>(i + 1) mod N\<close>, and the
  call returns the address of slot \<open>i\<close>. When the constructor throws, slot \<open>i\<close> is marked
  free again, the hint is left as it was, and the exception leaves the call. This holds
  for every capacity, \<open>N = 0\<close> included.
\<close>

theorem allocate_fast_probes_in_order:
  fixes pool :: "'v LockFreeMemoryPool" and T :: "'a \<Rightarrow> 'v option"
  defines "N \<equiv> length (segments pool)"
  defines "slot \<equiv> \<lambda>k. (search_start pool + k) mod N"
  shows "((\<forall>k<N. \<not> claim_succeeds sp pool k) \<longrightarrow>
            (\<exists>tr. allocate_fast T args sp pool = (Inr nullptr, pool, tr) \<and>
                  probed_slots tr = map slot [0..<N]))
       \<and> (\<forall>k v. k < N \<and> claim_succeeds sp pool k \<and> (\<forall>j<k. \<not> claim_succeeds sp pool j) \<and>
                 T args = Some v \<longrightarrow>
            (\<exists>tr. allocate_fast T args sp pool =
                    (Inr (SlotAddr (int (slot k))),
                     pool\<lparr>segments := (segments pool)[slot k := \<lparr>memory = Some v, available = False\<rparr>],
                          search_start := (slot k + 1) mod N\<rparr>,
                     tr) \<and>
                  probed_slots tr = map slot [0..<Suc k]))
       \<and> (\<forall>k. k < N \<and> claim_succeeds sp pool k \<and> (\<forall>j<k. \<not> claim_succeeds sp pool j) \<and>
                 T args = None \<longrightarrow>
            (\<exists>tr. allocate_fast T args sp pool =
                    (Inl ConstructorException,
                     pool\<lparr>segments := (segments pool)[slot k := \<lparr>memory = None, available = True\<rparr>]\<rparr>,
                     tr) \<and>
                  probed_slots tr = map slot [0..<Suc k]))"
proof (intro conjI allI impI)
  assume "\<forall>k<N. \<not> claim_succeeds sp pool k"
  then show "\<exists>tr. allocate_fast T args sp pool = (Inr nullptr, pool, tr) \<and>
                  probed_slots tr = map slot [0..<N]"
    unfolding N_def slot_def by (rule allocate_fast_exhausted)
next
  fix k v
  assume h: "k < N \<and> claim_succeeds sp pool k \<and> (\<forall>j<k. \<not> claim_succeeds sp pool j) \<and>
             T args = Some v"
  then have "k < length (segments pool)" "claim_succeeds sp pool k"
      "\<forall>j<k. \<not> claim_succeeds sp pool j" and v: "T args = Some v"
    by (simp_all add: N_def)
  from allocate_fast_claims [OF this(1-3), of T args] v
  show "\<exists>tr. allocate_fast T args sp pool =
                    (Inr (SlotAddr (int (slot k))),
                     pool\<lparr>segments := (segments pool)[slot k := \<lparr>memory = Some v, available = False\<rparr>],
                          search_start := (slot k + 1) mod N\<rparr>,
                     tr) \<and>
                  probed_slots tr = map slot [0..<Suc k]"
    by (simp add: N_def slot_def)
next
  fix k
  assume h: "k < N \<and> claim_succeeds sp pool k \<and> (\<forall>j<k. \<not> claim_succeeds sp pool j) \<and>
             T args = None"
  then have "k < length (segments pool)" "claim_succeeds sp pool k"
      "\<forall>j<k. \<not> claim_succeeds sp pool j" and v: "T args = None"
    by (simp_all add: N_def)
  from allocate_fast_claims [OF this(1-3), of T args] v
  show "\<exists>tr. allocate_fast T args sp pool =
                    (Inl ConstructorException,
                     pool\<lparr>segments := (segments pool)[slot k := \<lparr>memory = None, available = True\<rparr>]\<rparr>,
                     tr) \<and>
                  probed_slots tr = map slot [0..<Suc k]"
    by (simp add: N_def slot_def)
qed

theorem allocate_fast_probes_in_order_witness:
  "(\<exists>tr. allocate_fast Some (42::int) spurious_on_first_probe demo_pool =
          (Inr (SlotAddr 1),
           \<lparr>segments = [\<lparr>memory = Some 7, available = False\<rparr>,
                        \<lparr>memory = Some 42, available = False\<rparr>,
                        \<lparr>memory = None, available = True\<rparr>],
            search_start = 2\<rparr>, tr) \<and>
        probed_slots tr = [2, 0, 1])
   \<and> (\<exists>tr. allocate_fast Some (42::int) always_spurious demo_pool =
          (Inr nullptr, demo_pool, tr) \<and>
        probed_slots tr = [2, 0, 1])
   \<and> (\<exists>tr. allocate_fast ThrowingType True never_spurious test_pool =
          (Inl ConstructorException, test_pool, tr) \<and>
        probed_slots tr = [1])"
proof -
  have c: "\<not> claim_succeeds spurious_on_first_probe demo_pool 0"
       "\<not> claim_succeeds spurious_on_first_probe demo_pool 1"
       "claim_succeeds spurious_on_first_probe demo_pool 2"
    by (simp_all add: claim_succeeds_iff demo_pool_def ex_lt_retries spurious_on_first_probe_def)
  have lt: "\<forall>j<2. \<not> claim_succeeds spurious_on_first_probe demo_pool j"
    using c by (simp add: less_Suc_eq numeral_2_eq_2)
  have 1: "\<exists>tr. allocate_fast Some (42::int) spurious_on_first_probe demo_pool =
          (Inr (SlotAddr 1),
           \<lparr>segments = [\<lparr>memory = Some 7, available = False\<rparr>,
                        \<lparr>memory = Some 42, available = False\<rparr>,
                        \<lparr>memory = None, available = True\<rparr>],
            search_start = 2\<rparr>, tr) \<and>
        probed_slots tr = [2, 0, 1]"
    using allocate_fast_probes_in_order [where sp = spurious_on_first_probe and pool = demo_pool
          and T = Some and args = "42::int", THEN conjunct2, THEN conjunct1,
        rule_format, of 2 42] c lt
    by (simp add: demo_pool_def upt_3 numeral_2_eq_2)
  have n: "\<forall>k < length (segments demo_pool). \<not> claim_succeeds always_spurious demo_pool k"
    by (simp add: claim_succeeds_iff always_spurious_def)
  have 2: "\<exists>tr. allocate_fast Some (42::int) always_spurious demo_pool =
          (Inr nullptr, demo_pool, tr) \<and>
        probed_slots tr = [2, 0, 1]"
    using allocate_fast_probes_in_order [where sp = always_spurious and pool = demo_pool
          and T = Some and args = "42::int", THEN conjunct1, THEN mp, OF n]
    by (simp add: demo_pool_def upt_3 numeral_2_eq_2)
  have t: "0 < length (segments test_pool) \<and> claim_succeeds never_spurious test_pool 0 \<and>
           (\<forall>j<0. \<not> claim_succeeds never_spurious test_pool j) \<and> ThrowingType True = None"
    by (simp add: claim_succeeds_iff never_spurious_def test_pool_def ThrowingType_def)
  have 3: "\<exists>tr. allocate_fast ThrowingType True never_spurious test_pool =
          (Inl ConstructorException, test_pool, tr) \<and>
        probed_slots tr = [1]"
    using allocate_fast_probes_in_order [where sp = never_spurious and pool = test_pool
          and T = ThrowingType and args = True, THEN conjunct2, THEN conjunct2,
        rule_format, of 0, OF t]
    by (simp add: test_pool_def)
  show ?thesis using 1 2 3 by blast
qed

text \<open>
  C7. The cap on the compare-and-exchange calls made on one slot is the single constant
  \<^verbatim>\<open>max_spurious_retries\<close>, of value 3. The calls of one \<^verbatim>\<open>allocate_fast\<close> are exactly
  these. Probe \<open>k\<close>, on slot \<open>(start + k) mod N\<close>, makes one call when the slot is occupied
  and makes no retry; on a free slot it repeats the call on the same slot while it fails
  spuriously, up to the third call, and stops at the first call that does not fail
  spuriously, which claims the slot. The probes are \<open>0, 1, \<dots>\<close> in this order, up to and
  including the first one that ends in a claim, and all \<open>N\<close> of them when none does: after
  an occupied slot, and after three spurious failures on one slot, the next slot is
  probed. The cap counts the calls on the slot, the first one included, as the counter
  \<^verbatim>\<open>retry\<close> of the source does.
\<close>

theorem spurious_retry_cap:
  fixes pool :: "'v LockFreeMemoryPool" and T :: "'a \<Rightarrow> 'v option"
    and args :: 'a and sp :: "nat \<Rightarrow> nat \<Rightarrow> bool"
  defines "N \<equiv> length (segments pool)"
  defines "slot \<equiv> \<lambda>k. (search_start pool + k) mod N"
  defines "calls \<equiv> \<lambda>k. if \<not> available (segments pool ! slot k) then [Occupied]
                     else case find (\<lambda>r. \<not> sp k r) [0..<max_spurious_retries] of
                            None \<Rightarrow> replicate max_spurious_retries Spurious
                          | Some r \<Rightarrow> replicate r Spurious @ [Claimed]"
  defines "n \<equiv> case find (\<lambda>k. last (calls k) = Claimed) [0..<N] of
                  None \<Rightarrow> N | Some k \<Rightarrow> Suc k"
  shows "max_spurious_retries = 3
       \<and> snd (snd (allocate_fast T args sp pool)) = map (\<lambda>k. Probe (slot k) (calls k)) [0..<n]"
proof -
  have w: "(last (calls k) = Claimed) = claim_succeeds sp pool k" for k
    by (auto simp: calls_def slot_def N_def claim_succeeds_find max_spurious_retries_def
        numeral_3_eq_3 split: option.splits)
  have c: "calls k = retry_loop (sp k) (available (segments pool ! slot k)) 0" for k
    by (simp add: calls_def retry_loop_find)
  have n: "n = (case find (claim_succeeds sp pool) [0..<length (segments pool)] of
                  None \<Rightarrow> length (segments pool) | Some k \<Rightarrow> Suc k)"
    unfolding n_def N_def by (simp add: w [unfolded N_def])
  have "snd (snd (allocate_fast T args sp pool)) = map (\<lambda>k. Probe (slot k) (calls k)) [0..<n]"
    unfolding n c by (simp add: allocate_fast_trace_exact slot_def N_def)
  then show ?thesis by (simp add: max_spurious_retries_def)
qed

theorem spurious_retry_cap_witness:
  "snd (snd (allocate_fast Some (42::int) spurious_on_first_probe demo_pool)) =
     [Probe 2 [Spurious, Spurious, Spurious], Probe 0 [Occupied], Probe 1 [Claimed]]"
proof -
  have s: "length (segments demo_pool) = 3" "search_start demo_pool = 2"
    by (simp_all add: demo_pool_def)
  show ?thesis
    using spurious_retry_cap [where T = Some and args = "42::int"
        and sp = spurious_on_first_probe and pool = demo_pool, THEN conjunct2]
    unfolding s upt_3
    by (simp add: upt_3 find_retries_all_spurious find_retries_first replicate_retries demo_pool_def
        upt_rec [of 0 "Suc (Suc 0)"] upt_rec [of "Suc 0" "Suc (Suc 0)"] upt_rec [of 0 "Suc 0"]
        upt_rec [of 0 "Suc (Suc (Suc 0))"] upt_rec [of "Suc 0" "Suc (Suc (Suc 0))"]
        upt_rec [of "Suc (Suc 0)" "Suc (Suc (Suc 0))"])
qed

section \<open>Release\<close>

text \<open>
  C5. \<^verbatim>\<open>deallocate_fast(nullptr)\<close> returns normally, runs no destructor (its trace is
  empty) and leaves the pool as it was: the flags, the stored objects, the hint and the
  capacity. A later allocation, and a whole later history, run as they would have without
  the call.
\<close>

theorem deallocate_fast_null_noop:
  "deallocate_fast ndebug pool nullptr = (Inr (), pool, [])
   \<and> allocate_fast T args sp (fst (snd (deallocate_fast ndebug pool nullptr)))
       = allocate_fast T args sp pool
   \<and> run T ndebug (Dealloc nullptr # ops) pool
       = (Released # fst (run T ndebug ops pool), snd (run T ndebug ops pool))"
  by (simp add: deallocate_fast_def release_result_def fatal_def split: prod.splits)

text \<open>
  C9. \<^verbatim>\<open>deallocate_impl_safe\<close> has no path that returns false. For a pointer whose index
  lies in the array it stores true in the flag and returns true, whatever the state of the
  slot; for any other pointer the unchecked store is outside the array, which is undefined
  behaviour and not a return of false. So \<^verbatim>\<open>SAFE_CALL\<close> never aborts, neither in
  \<^verbatim>\<open>deallocate_fast\<close> nor in the deleter of the handle, with or without \<^verbatim>\<open>NDEBUG\<close>.
\<close>

theorem release_never_rejects:
  "fst (deallocate_impl_safe pool elem) \<noteq> Inr False
   \<and> (0 \<le> d \<and> nat d < length (segments pool) \<longrightarrow>
        deallocate_impl_safe pool (SlotAddr d) =
          (Inr True,
           pool\<lparr>segments := (segments pool)[nat d := (segments pool ! nat d)\<lparr>available := True\<rparr>]\<rparr>))
   \<and> (\<not> (0 \<le> d \<and> nat d < length (segments pool)) \<longrightarrow>
        deallocate_impl_safe pool (SlotAddr d) = (Inl UndefinedBehaviour, pool))
   \<and> fst (deallocate_fast ndebug pool elem) \<noteq> Inl AssertionAbort
   \<and> fst (PoolDeleter ndebug po elem) \<noteq> Inl AssertionAbort"
proof (intro conjI)
  show "fst (deallocate_impl_safe pool elem) \<noteq> Inr False"
    using deallocate_impl_safe_cases [of pool elem] by auto
  show "fst (deallocate_fast ndebug pool elem) \<noteq> Inl AssertionAbort"
    using destroy_and_release_no_abort [of ndebug pool elem]
    by (simp add: deallocate_fast_def)
  show "fst (PoolDeleter ndebug po elem) \<noteq> Inl AssertionAbort"
  proof (cases po)
    case None
    then show ?thesis by (simp add: PoolDeleter_def)
  next
    case (Some p)
    then show ?thesis
      using destroy_and_release_no_abort [of ndebug p elem]
      by (auto simp: PoolDeleter_def split: prod.splits)
  qed
qed (simp_all add: deallocate_impl_safe_def store_available_def)

theorem release_never_rejects_witness:
  "deallocate_impl_safe demo_pool (SlotAddr 1) = (Inr True, demo_pool)
   \<and> deallocate_impl_safe demo_pool (SlotAddr 5) = (Inl UndefinedBehaviour, demo_pool)
   \<and> deallocate_impl_safe demo_pool (SlotAddr (- 1)) = (Inl UndefinedBehaviour, demo_pool)"
  using release_never_rejects [of demo_pool nullptr 1 True None, THEN conjunct2, THEN conjunct1]
    release_never_rejects [of demo_pool nullptr 5 True None, THEN conjunct2, THEN conjunct2, THEN conjunct1]
    release_never_rejects [of demo_pool nullptr "- 1" True None, THEN conjunct2, THEN conjunct2, THEN conjunct1]
  by (simp add: demo_pool_def)

section \<open>The snapshot\<close>

text \<open>
  C6, as the claim states it, fails: with 7 slots used of 100 the exact percentage is 7,
  and the snapshot returns the double above it, \<open>7 + 2 ^ -50\<close> (printed
  \<^verbatim>\<open>7.000000000000001\<close>): the quotient \<open>7 / 100\<close> is rounded before it is multiplied.
\<close>

theorem snapshot_percentage_rounded:
  "total_objects (get_pool_stats_impl seven_of_hundred) = 100
   \<and> used_objects (get_pool_stats_impl seven_of_hundred) = 7
   \<and> real 7 / real 100 * 100 = (7::real)
   \<and> utilization_percent (get_pool_stats_impl seven_of_hundred) = 7 + 1 / 2 ^ 50
   \<and> utilization_percent (get_pool_stats_impl seven_of_hundred) \<noteq> real 7 / real 100 * 100"
  by (simp add: get_pool_stats_impl_eq seven_of_hundred_def utilization_7_100)

text \<open>
  C6, amended. The snapshot of a pool has \<open>total\<close> equal to the number of slots (the
  capacity given at construction), \<open>free\<close> equal to the number of slots whose flag reads
  true, \<open>used\<close> equal to \<open>total - free\<close>, so that \<open>free + used = total\<close>, and
  \<open>utilization_percent\<close> equal to 0 when \<open>total = 0\<close> and otherwise to \<open>used / total * 100\<close>
  as double arithmetic computes it: both counts converted to double, the quotient rounded,
  the product with 100 rounded. For a pool of fewer than \<open>2 ^ 53\<close> slots this double is
  within a relative error of \<open>2 ^ -51\<close> of the exact percentage; it need not be equal to it.
\<close>

theorem snapshot_counts:
  fixes pool :: "'v LockFreeMemoryPool"
  defines "s \<equiv> get_pool_stats_impl pool"
  shows "total_objects s = length (segments pool)
       \<and> total_objects (get_pool_stats_impl (LockFreeMemoryPool_new n :: 'v LockFreeMemoryPool)) = n
       \<and> free_objects s = length (filter available (segments pool))
       \<and> used_objects s = total_objects s - free_objects s
       \<and> free_objects s + used_objects s = total_objects s
       \<and> utilization_percent s =
           (if total_objects s = 0 then 0
            else double_value
                   (double_mul (double_div (double_of_size_t (used_objects s))
                                           (double_of_size_t (total_objects s)))
                               (double_of_size_t 100)))
       \<and> (0 < total_objects s \<and> total_objects s < 2 ^ 53 \<longrightarrow>
            \<bar>utilization_percent s - real (used_objects s) / real (total_objects s) * 100\<bar>
              \<le> (real (used_objects s) / real (total_objects s) * 100) / 2 ^ 51)"
proof -
  have e: "0 < t \<and> t < 2 ^ 53 \<longrightarrow>
             \<bar>utilization (t - f) t - real (t - f) / real t * 100\<bar>
               \<le> (real (t - f) / real t * 100) / 2 ^ 51" for t f :: nat
    using utilization_error [of t "t - f"] by simp
  show ?thesis
    using e [of "length (segments pool)" "length (filter available (segments pool))"]
    by (simp add: s_def get_pool_stats_impl_eq utilization_def)
qed

theorem snapshot_counts_witness:
  "total_objects (get_pool_stats_impl five_of_ten) = 10
   \<and> free_objects (get_pool_stats_impl five_of_ten) = 5
   \<and> used_objects (get_pool_stats_impl five_of_ten) = 5
   \<and> utilization_percent (get_pool_stats_impl five_of_ten) = 50
   \<and> \<bar>utilization_percent (get_pool_stats_impl five_of_ten) - 50\<bar> \<le> 50 / 2 ^ 51"
proof -
  have c: "total_objects (get_pool_stats_impl five_of_ten) = 10"
    "used_objects (get_pool_stats_impl five_of_ten) = 5"
    "free_objects (get_pool_stats_impl five_of_ten) = 5"
    "utilization_percent (get_pool_stats_impl five_of_ten) = 50"
    by (simp_all add: get_pool_stats_impl_eq five_of_ten_def utilization_5_10)
  have h: "0 < total_objects (get_pool_stats_impl five_of_ten)
           \<and> total_objects (get_pool_stats_impl five_of_ten) < 2 ^ 53"
    by (simp add: c)
  from snapshot_counts [where pool = five_of_ten and n = 0, THEN conjunct2, THEN conjunct2,
      THEN conjunct2, THEN conjunct2, THEN conjunct2, THEN conjunct2, THEN mp, OF h]
  show ?thesis by (simp add: c)
qed

section \<open>The pool of capacity 0\<close>

text \<open>
  C10. \<^verbatim>\<open>LockFreeMemoryPool(0)\<close> builds a pool with no slot. On it \<^verbatim>\<open>allocate_fast\<close> and
  \<^verbatim>\<open>allocate_safe\<close> return null and leave the pool as it was, without a probe: no
  remainder and no index is evaluated, so there is no undefined behaviour. The snapshot is
  \<open>total = 0\<close>, \<open>free = 0\<close>, \<open>used = 0\<close>, \<open>utilization_percent = 0\<close>.
\<close>

theorem zero_capacity_pool:
  fixes T :: "'a \<Rightarrow> 'v option"
  defines "pool \<equiv> LockFreeMemoryPool_new 0 :: 'v LockFreeMemoryPool"
  shows "segments pool = []
       \<and> allocate_fast T args sp pool = (Inr nullptr, pool, [])
       \<and> allocate_safe T args sp pool = (Inr nullptr, pool, [])
       \<and> get_pool_stats_impl pool =
           \<lparr>total_objects = 0, free_objects = 0, used_objects = 0, utilization_percent = 0\<rparr>"
  by (simp add: pool_def allocate_fast_empty allocate_safe_def get_pool_stats_impl_eq)

section \<open>Failure of the constructor\<close>

text \<open>
  C4, as the claim states it, fails: after a constructor failure on a pool that was not
  full, a later allocation whose constructor completes returns null when each of its
  probes fails spuriously on its three calls.
\<close>

theorem constructor_failure_later_starved:
  "ThrowingType True = None
   \<and> available (segments test_pool ! 1)
   \<and> fst (allocate_fast ThrowingType True never_spurious test_pool) = Inl ConstructorException
   \<and> ThrowingType False = Some ()
   \<and> fst (allocate_fast ThrowingType False always_spurious
            (fst (snd (allocate_fast ThrowingType True never_spurious test_pool)))) = Inr nullptr"
  by (simp add: test_pool_throw test_pool_starved) (simp add: ThrowingType_def test_pool_def)

text \<open>
  C4, amended. When the constructor throws on the arguments of a call: \<^verbatim>\<open>allocate_fast\<close>
  ends with the exception if one of its probes wins a slot, and returns null (the
  constructor not being run) otherwise; \<^verbatim>\<open>allocate_safe\<close> returns the empty handle in both
  cases; every flag and the hint are as before the call. So a later allocation on a pool
  that had a free slot returns a slot, provided its constructor completes and none of its
  probes fails spuriously on all its calls.
\<close>

theorem constructor_failure_restores_slot:
  fixes pool :: "'v LockFreeMemoryPool" and T :: "'a \<Rightarrow> 'v option"
    and args :: 'a and sp :: "nat \<Rightarrow> nat \<Rightarrow> bool"
  assumes "T args = None"
  defines "res \<equiv> allocate_fast T args sp pool"
  defines "pool' \<equiv> fst (snd res)"
  shows "(fst res = Inl ConstructorException \<or> fst res = Inr nullptr)
       \<and> ((\<exists>k < length (segments pool). claim_succeeds sp pool k) \<longrightarrow>
            fst res = Inl ConstructorException)
       \<and> map available (segments pool') = map available (segments pool)
       \<and> search_start pool' = search_start pool
       \<and> allocate_safe T args sp pool = (Inr nullptr, pool', snd (snd res))
       \<and> (\<forall>args2 sp2 v.
             T args2 = Some v \<and> no_starvation sp2 (length (segments pool)) \<and>
             (\<exists>i < length (segments pool). available (segments pool ! i)) \<longrightarrow>
             (\<exists>j < length (segments pool).
                fst (allocate_fast T args2 sp2 pool') = Inr (SlotAddr (int j))))"
proof -
  note fr = allocate_fast_throws_frame [where T = T and args = args and pool = pool and sp = sp,
      OF assms(1), folded res_def, folded pool'_def]
  have flags: "map available (segments pool') = map available (segments pool)"
    and hint: "search_start pool' = search_start pool"
    using fr by simp_all
  have len: "length (segments pool') = length (segments pool)"
    using flags by (rule map_eq_imp_length_eq)
  have safe: "allocate_safe T args sp pool = (Inr nullptr, pool', snd (snd res))"
    using fr by (auto simp: allocate_safe_of_fast res_def pool'_def)
  have later: "\<exists>j < length (segments pool).
                fst (allocate_fast T args2 sp2 pool') = Inr (SlotAddr (int j))"
    if h: "T args2 = Some v \<and> no_starvation sp2 (length (segments pool)) \<and>
             (\<exists>i < length (segments pool). available (segments pool ! i))"
    for args2 sp2 v
  proof -
    from h obtain i where i: "i < length (segments pool)" "available (segments pool ! i)"
      by blast
    have "map available (segments pool') ! i = map available (segments pool) ! i"
      using flags by simp
    then have av: "available (segments pool' ! i)" using i len by simp
    from allocate_fast_succeeds [of i pool' sp2 T args2 v] i av h len
    show ?thesis by auto
  qed
  show ?thesis
    using fr safe later by blast
qed

theorem constructor_failure_restores_slot_witness:
  "fst (allocate_fast ThrowingType True never_spurious test_pool) = Inl ConstructorException
   \<and> map available (segments (fst (snd (allocate_fast ThrowingType True never_spurious test_pool))))
       = [False, True]
   \<and> search_start (fst (snd (allocate_fast ThrowingType True never_spurious test_pool))) = 1
   \<and> fst (allocate_safe ThrowingType True never_spurious test_pool) = Inr nullptr
   \<and> (\<exists>j<2. fst (allocate_fast ThrowingType False never_spurious
                  (fst (snd (allocate_fast ThrowingType True never_spurious test_pool))))
               = Inr (SlotAddr (int j)))"
proof -
  have t: "ThrowingType True = None" and f: "ThrowingType False = Some ()"
    by (simp_all add: ThrowingType_def)
  have c: "\<exists>k < length (segments test_pool). claim_succeeds never_spurious test_pool k"
    by (rule exI [of _ 0]) (simp add: claim_succeeds_iff never_spurious_def test_pool_def)
  have n: "no_starvation never_spurious (length (segments test_pool))"
    by (simp add: no_starvation_iff never_spurious_def)
  have a: "\<exists>i < length (segments test_pool). available (segments test_pool ! i)"
    by (rule exI [of _ 1]) (simp add: test_pool_def)
  have l: "length (segments test_pool) = 2" "map available (segments test_pool) = [False, True]"
    "search_start test_pool = 1"
    by (simp_all add: test_pool_def)
  note th = constructor_failure_restores_slot [where T = ThrowingType and args = True
      and sp = never_spurious and pool = test_pool, OF t]
  from th c have 1: "fst (allocate_fast ThrowingType True never_spurious test_pool) = Inl ConstructorException"
    by blast
  from th have 2: "map available (segments (fst (snd (allocate_fast ThrowingType True never_spurious test_pool))))
       = [False, True]" "search_start (fst (snd (allocate_fast ThrowingType True never_spurious test_pool))) = 1"
    "fst (allocate_safe ThrowingType True never_spurious test_pool) = Inr nullptr"
    by (simp_all add: l)
  from th f n a have 3: "\<exists>j < length (segments test_pool). fst (allocate_fast ThrowingType False never_spurious
                  (fst (snd (allocate_fast ThrowingType True never_spurious test_pool))))
               = Inr (SlotAddr (int j))"
    by blast
  show ?thesis using 1 2 3 by (simp add: l)
qed

section \<open>The capacity bound\<close>




section \<open>No aliasing\<close>

text \<open>
  C3. An allocation returns the address of a slot only if the slot was free before the
  call, and the slot is occupied after it: an occupied slot is never returned by a claim.
  Hence, in every history of calls on a pool, if two allocations return the address of the
  same slot, the pointer to that slot is released (by \<^verbatim>\<open>deallocate_fast\<close> or by the drop
  of its handle) by a call between them.
\<close>

theorem no_aliasing:
  fixes T :: "'a \<Rightarrow> 'v option" and pool :: "'v LockFreeMemoryPool"
    and x :: "'a op" and ops :: "'a op list" and ndebug :: bool and d :: int
  defines "rs \<equiv> fst (run T ndebug ops pool)"
  shows "(fst (step T ndebug x pool) = Allocated (SlotAddr d) \<longrightarrow>
            0 \<le> d \<and> nat d < length (segments pool) \<and> available (segments pool ! nat d) \<and>
            \<not> available (segments (snd (step T ndebug x pool)) ! nat d))
       \<and> (\<forall>j k. j < k \<and> k < length rs \<and> rs ! j = Allocated (SlotAddr d) \<and>
                  rs ! k = Allocated (SlotAddr d) \<longrightarrow>
                  (\<exists>m. j < m \<and> m < k \<and> releases (nat d) (ops ! m)))"
  unfolding rs_def
  using step_returns_slot [of T ndebug x pool d] run_no_alias [of _ _ T ndebug ops pool d]
  by blast

theorem no_aliasing_witness:
  "fst (run ThrowingType False reuse_history (LockFreeMemoryPool_new 2)) ! 0
     = Allocated (SlotAddr 0)
   \<and> fst (run ThrowingType False reuse_history (LockFreeMemoryPool_new 2)) ! 3
     = Allocated (SlotAddr 0)
   \<and> (\<exists>m. 0 < m \<and> m < 3 \<and> releases 0 (reuse_history ! m))
   \<and> fst (step ThrowingType False (Alloc False never_spurious) (LockFreeMemoryPool_new 2))
     = Allocated (SlotAddr 0)
   \<and> available (segments (LockFreeMemoryPool_new 2 :: unit LockFreeMemoryPool) ! 0)
   \<and> \<not> available (segments (snd (step ThrowingType False (Alloc False never_spurious)
                                    (LockFreeMemoryPool_new 2))) ! 0)"
proof -
  have h: "(0::nat) < 3
      \<and> 3 < length (fst (run ThrowingType False reuse_history (LockFreeMemoryPool_new 2)))
      \<and> fst (run ThrowingType False reuse_history (LockFreeMemoryPool_new 2)) ! 0
           = Allocated (SlotAddr 0)
      \<and> fst (run ThrowingType False reuse_history (LockFreeMemoryPool_new 2)) ! 3
           = Allocated (SlotAddr 0)"
    by (simp add: reuse_history_run)
  have s: "fst (step ThrowingType False (Alloc False never_spurious) (LockFreeMemoryPool_new 2))
     = Allocated (SlotAddr 0)"
    by (simp add: step_Alloc new_2 allocate_fast_first_free alloc_result_def del: step.simps)
  note th = no_aliasing [where T = ThrowingType and ndebug = False and ops = reuse_history
      and pool = "LockFreeMemoryPool_new 2" and d = 0 and x = "Alloc False never_spurious"]
  from th [THEN conjunct2, rule_format, OF h] th [THEN conjunct1, THEN mp, OF s]
  show ?thesis using h s by simp
qed

end
